theory Spec2Isabelle
  imports Complex_Main
begin

section \<open>Mudbrick: redaction search patterns and the character position index\<close>

text \<open>
  The development embeds the redaction search module (pattern table, \<open>searchPatterns\<close>,
  \<open>buildCharMap\<close>, \<open>transformPoint\<close>, \<open>getRectsForRange\<close>, \<open>luhnCheck\<close>,
  \<open>escapeRegex\<close>) and the coordinate conversion of \<open>js/ocr.js\<close>.

  Conventions of the embedding.
  \<^item> A JavaScript string is a \<open>string\<close>: one \<open>char\<close> per code unit, restricted to
    the code units below 256.
  \<^item> A coordinate of the redaction module is a \<open>number\<close>: a finite value, \<open>Infinity\<close>,
    \<open>-Infinity\<close> or \<open>NaN\<close>, and every arithmetic operation rounds its exact result to
    the nearest double. The two zeros are one value: no operation of the module divides
    by a coordinate or tells them apart otherwise.
  \<^item> The OCR conversion, whose claim is about a tolerance, is stated for any rounding
    with the error of rounding to nearest.
  \<^item> \<open>null\<close> in the character map is \<open>None\<close>.
\<close>

subsection \<open>Numbers\<close>

datatype number = Num real | Infinity | NegInfinity | NaN

text \<open>
  \<open>Number.MIN_VALUE\<close>, the least positive double; the least positive normal double; and
  the magnitude from which a rounded result is infinite.
\<close>

definition MIN_VALUE :: real where
  "MIN_VALUE = 1 / 2 ^ 1074"

definition MIN_NORMAL :: real where
  "MIN_NORMAL = 1 / 2 ^ 1022"

definition OVERFLOW :: real where
  "OVERFLOW = 2 ^ 1024"

text \<open>
  Rounding to the nearest double, ties to the even significand. The doubles around \<open>x\<close>
  are the multiples of \<open>ulp x\<close>, which is \<open>2 ^ (e - 52)\<close> for the exponent \<open>e\<close> of \<open>x\<close>,
  not below \<open>-1022\<close> (below it the doubles are subnormal, with the spacing
  \<open>MIN_VALUE\<close>). A rounded result of magnitude \<open>2 ^ 1024\<close> is infinite.
\<close>

definition binade :: "real \<Rightarrow> int" where
  "binade x = max (- 1022) \<lfloor>log 2 \<bar>x\<bar>\<rfloor>"

definition ulp :: "real \<Rightarrow> real" where
  "ulp x = 2 powr (of_int (binade x) - 52)"

definition round_half_even :: "real \<Rightarrow> int" where
  "round_half_even r =
     (let f = \<lfloor>r\<rfloor>
      in if r - of_int f < 1 / 2 then f
         else if 1 / 2 < r - of_int f then f + 1
         else if even f then f else f + 1)"

definition to_double :: "real \<Rightarrow> number" where
  "to_double x =
     (let y = of_int (round_half_even (x / ulp x)) * ulp x
      in if OVERFLOW \<le> y then Infinity
         else if y \<le> - OVERFLOW then NegInfinity
         else Num y)"

text \<open>
  The operations of the language that the module uses: \<open>+\<close>, \<open>-\<close>, \<open>*\<close>, \<open>/\<close>,
  \<open>Math.sqrt\<close> (the correctly rounded square root), \<open>Math.abs\<close>, \<open>Math.max\<close> and
  \<open><\<close>. \<open>signed_inf s\<close> is the infinity with the sign of \<open>s\<close>, and \<open>NaN\<close> for zero.
\<close>

definition signed_inf :: "real \<Rightarrow> number" where
  "signed_inf s = (if s = 0 then NaN else if 0 < s then Infinity else NegInfinity)"

fun js_neg :: "number \<Rightarrow> number" where
  "js_neg (Num x) = Num (- x)"
| "js_neg Infinity = NegInfinity"
| "js_neg NegInfinity = Infinity"
| "js_neg NaN = NaN"

fun js_add :: "number \<Rightarrow> number \<Rightarrow> number" where
  "js_add (Num x) (Num y) = to_double (x + y)"
| "js_add (Num x) b = b"
| "js_add NaN b = NaN"
| "js_add Infinity b = (if b = NegInfinity \<or> b = NaN then NaN else Infinity)"
| "js_add NegInfinity b = (if b = Infinity \<or> b = NaN then NaN else NegInfinity)"

definition js_sub :: "number \<Rightarrow> number \<Rightarrow> number" where
  "js_sub a b = js_add a (js_neg b)"

fun js_mul :: "number \<Rightarrow> number \<Rightarrow> number" where
  "js_mul (Num x) (Num y) = to_double (x * y)"
| "js_mul (Num x) Infinity = signed_inf x"
| "js_mul (Num x) NegInfinity = signed_inf (- x)"
| "js_mul Infinity (Num y) = signed_inf y"
| "js_mul NegInfinity (Num y) = signed_inf (- y)"
| "js_mul Infinity Infinity = Infinity"
| "js_mul Infinity NegInfinity = NegInfinity"
| "js_mul NegInfinity Infinity = NegInfinity"
| "js_mul NegInfinity NegInfinity = Infinity"
| "js_mul a b = NaN"

fun js_div :: "number \<Rightarrow> number \<Rightarrow> number" where
  "js_div (Num x) (Num y) = (if y = 0 then signed_inf x else to_double (x / y))"
| "js_div (Num x) Infinity = Num 0"
| "js_div (Num x) NegInfinity = Num 0"
| "js_div Infinity (Num y) = (if y < 0 then NegInfinity else Infinity)"
| "js_div NegInfinity (Num y) = (if y < 0 then Infinity else NegInfinity)"
| "js_div a b = NaN"

fun js_sqrt :: "number \<Rightarrow> number" where
  "js_sqrt (Num x) = (if x < 0 then NaN else to_double (sqrt x))"
| "js_sqrt Infinity = Infinity"
| "js_sqrt a = NaN"

fun js_abs :: "number \<Rightarrow> number" where
  "js_abs (Num x) = Num \<bar>x\<bar>"
| "js_abs NaN = NaN"
| "js_abs a = Infinity"

fun js_max :: "number \<Rightarrow> number \<Rightarrow> number" where
  "js_max (Num x) (Num y) = Num (max x y)"
| "js_max NaN b = NaN"
| "js_max a NaN = NaN"
| "js_max Infinity b = Infinity"
| "js_max a Infinity = Infinity"
| "js_max NegInfinity b = b"
| "js_max a NegInfinity = a"

fun js_lt :: "number \<Rightarrow> number \<Rightarrow> bool" where
  "js_lt (Num x) (Num y) = (x < y)"
| "js_lt NaN b = False"
| "js_lt a NaN = False"
| "js_lt Infinity b = False"
| "js_lt a NegInfinity = False"
| "js_lt a b = True"

fun is_finite :: "number \<Rightarrow> bool" where
  "is_finite (Num x) = True"
| "is_finite a = False"

subsection \<open>Data model\<close>

text \<open>A six-element transform array \<open>[a, b, c, d, e, f]\<close>.\<close>

type_synonym transform = "number \<times> number \<times> number \<times> number \<times> number \<times> number"

text \<open>A text-content item of a page: the fields \<open>str\<close>, \<open>transform\<close>, \<open>width\<close>.\<close>

record text_item =
  item_str :: string
  item_transform :: transform
  item_width :: number

text \<open>A character-map entry \<open>{x, y, w, h}\<close> and a rectangle \<open>{x, y, width, height}\<close>.\<close>

record pos =
  pos_x :: number
  pos_y :: number
  pos_w :: number
  pos_h :: number

record rect =
  rect_x :: number
  rect_y :: number
  rect_width :: number
  rect_height :: number

type_synonym char_map = "pos option list"

subsection \<open>buildCharMap\<close>

text \<open>\<open>transformPoint\<close>: the product of two transforms.\<close>

fun transformPoint :: "transform \<Rightarrow> transform \<Rightarrow> transform" where
  "transformPoint (a, b, c, d, e, f) (ta, tb, tc, td, te, tf) =
     (js_add (js_mul a ta) (js_mul c tb),
      js_add (js_mul b ta) (js_mul d tb),
      js_add (js_mul a tc) (js_mul c td),
      js_add (js_mul b tc) (js_mul d td),
      js_add (js_add (js_mul a te) (js_mul c tf)) e,
      js_add (js_add (js_mul b te) (js_mul d tf)) f)"

text \<open>
  \<open>window.pdfjsLib?.Util?.transform?.(vt, t) || transformPoint(vt, t)\<close>: the library
  function when the page has it (it returns an array, which is truthy), the local
  product otherwise. The library function is a parameter.
\<close>

definition item_tx :: "(transform \<Rightarrow> transform \<Rightarrow> transform) option \<Rightarrow> transform \<Rightarrow> transform \<Rightarrow> transform" where
  "item_tx util vt t = (case util of Some f \<Rightarrow> f vt t | None \<Rightarrow> transformPoint vt t)"

text \<open>
  The entries pushed for one item with a non-empty \<open>str\<close> (the inner \<open>for\<close> loop):
  \<open>x + avgCharWidth * i\<close>, \<open>y - fontSize\<close>, \<open>avgCharWidth\<close>, \<open>fontSize\<close>, with
  \<open>fontSize = Math.sqrt(tx[2] * tx[2] + tx[3] * tx[3])\<close> and
  \<open>avgCharWidth = item.width / (item.str.length || 1)\<close>.
\<close>

definition item_chars :: "(transform \<Rightarrow> transform \<Rightarrow> transform) option \<Rightarrow> transform \<Rightarrow> text_item \<Rightarrow> char_map" where
  "item_chars util vt item =
     (case item_tx util vt (item_transform item) of (t0, t1, t2, t3, t4, t5) \<Rightarrow>
        let x = t4;
            y = t5;
            fontSize = js_sqrt (js_add (js_mul t2 t2) (js_mul t3 t3));
            n = length (item_str item);
            avgCharWidth = js_div (item_width item) (Num (real (if n = 0 then 1 else n)))
        in map (\<lambda>i. Some \<lparr>pos_x = js_add x (js_mul avgCharWidth (Num (real i))),
                            pos_y = js_sub y fontSize,
                            pos_w = avgCharWidth, pos_h = fontSize\<rparr>) [0..<n])"

text \<open>
  The loop over the items, with the two accumulators \<open>fullText\<close> and \<open>charMap\<close>.
  An item whose \<open>str\<close> is falsy (the empty string) adds a space and a \<open>null\<close>; any
  other item adds its characters, then a space and a \<open>null\<close>.
\<close>

fun buildCharMap_loop ::
  "(transform \<Rightarrow> transform \<Rightarrow> transform) option \<Rightarrow> transform \<Rightarrow> text_item list \<Rightarrow>
   string \<times> char_map \<Rightarrow> string \<times> char_map" where
  "buildCharMap_loop util vt [] acc = acc"
| "buildCharMap_loop util vt (item # items) (fullText, charMap) =
     (if item_str item = []
      then buildCharMap_loop util vt items (fullText @ '' '', charMap @ [None])
      else buildCharMap_loop util vt items
             (fullText @ item_str item @ '' '',
              charMap @ item_chars util vt item @ [None]))"

definition buildCharMap ::
  "(transform \<Rightarrow> transform \<Rightarrow> transform) option \<Rightarrow> transform \<Rightarrow> text_item list \<Rightarrow> string \<times> char_map" where
  "buildCharMap util vt items = buildCharMap_loop util vt items ([], [])"


subsection \<open>getRectsForRange\<close>

text \<open>The rectangle opened at an entry: \<open>{ x: pos.x, y: pos.y, width: pos.w, height: pos.h }\<close>.\<close>

definition open_rect :: "pos \<Rightarrow> rect" where
  "open_rect p = \<lparr>rect_x = pos_x p, rect_y = pos_y p, rect_width = pos_w p, rect_height = pos_h p\<rparr>"

text \<open>The test of the source: \<open>Math.abs(pos.y - currentRect.y) < pos.h * 0.5\<close>.\<close>

definition same_line :: "pos \<Rightarrow> rect \<Rightarrow> bool" where
  "same_line p r = js_lt (js_abs (js_sub (pos_y p) (rect_y r))) (js_mul (pos_h p) (Num (1 / 2)))"

text \<open>
  The extension of the open rectangle: \<open>width = pos.x + pos.w - currentRect.x\<close>,
  \<open>height = Math.max(currentRect.height, pos.h)\<close>.
\<close>

definition extend_rect :: "rect \<Rightarrow> pos \<Rightarrow> rect" where
  "extend_rect r p =
     (let newRight = js_add (pos_x p) (pos_w p)
      in r\<lparr>rect_width := js_sub newRight (rect_x r), rect_height := js_max (rect_height r) (pos_h p)\<rparr>)"

text \<open>
  The \<open>for\<close> loop of \<open>getRectsForRange\<close>, from index \<open>i\<close>, with the state
  \<open>(rects, currentRect)\<close>; it runs while \<open>i < endIdx && i < charMap.length\<close>.
\<close>

function getRects_loop ::
  "char_map \<Rightarrow> nat \<Rightarrow> nat \<Rightarrow> rect list \<Rightarrow> rect option \<Rightarrow> rect list \<times> rect option" where
  "getRects_loop charMap i endIdx rects currentRect =
     (if i < endIdx \<and> i < length charMap then
        (case charMap ! i of
           None \<Rightarrow>
             (case currentRect of
                Some r \<Rightarrow> getRects_loop charMap (i + 1) endIdx (rects @ [r]) None
              | None \<Rightarrow> getRects_loop charMap (i + 1) endIdx rects None)
         | Some p \<Rightarrow>
             (case currentRect of
                None \<Rightarrow> getRects_loop charMap (i + 1) endIdx rects (Some (open_rect p))
              | Some r \<Rightarrow>
                  if same_line p r
                  then getRects_loop charMap (i + 1) endIdx rects (Some (extend_rect r p))
                  else getRects_loop charMap (i + 1) endIdx (rects @ [r]) (Some (open_rect p))))
      else (rects, currentRect))"
  by pat_completeness auto
termination
  by (relation "measure (\<lambda>(charMap, i, endIdx, rects, currentRect). length charMap - i)") auto

declare getRects_loop.simps [simp del]

definition getRectsForRange :: "char_map \<Rightarrow> nat \<Rightarrow> nat \<Rightarrow> rect list" where
  "getRectsForRange charMap startIdx endIdx =
     (case getRects_loop charMap startIdx endIdx [] None of
        (rects, Some r) \<Rightarrow> rects @ [r]
      | (rects, None) \<Rightarrow> rects)"

text \<open>
  The walk as the specification words it, over the entries of the span, with the rectangle
  that is open: a \<open>null\<close> entry closes the open rectangle; a positioned entry opens a
  rectangle when none is open, extends the open one when \<open>same_ln\<close> holds, and otherwise
  closes it and opens a new one; the end of the span flushes the open rectangle. The
  same-line test is a parameter, so that the walk can be read with the test of the source
  and with the test of the specification.
\<close>

fun walk :: "(pos \<Rightarrow> rect \<Rightarrow> bool) \<Rightarrow> pos option list \<Rightarrow> rect option \<Rightarrow> rect list" where
  "walk same_ln [] None = []"
| "walk same_ln [] (Some r) = [r]"
| "walk same_ln (None # es) None = walk same_ln es None"
| "walk same_ln (None # es) (Some r) = r # walk same_ln es None"
| "walk same_ln (Some p # es) None = walk same_ln es (Some (open_rect p))"
| "walk same_ln (Some p # es) (Some r) =
     (if same_ln p r then walk same_ln es (Some (extend_rect r p))
      else r # walk same_ln es (Some (open_rect p)))"

text \<open>
  The test in the words of the specification: the vertical centre of the entry lies
  within half the entry's height of the vertical centre of the open rectangle. It is
  read in exact arithmetic, on finite coordinates; with a coordinate that is not finite
  there is no centre, and the entry does not lie within.
\<close>

definition same_line_centres :: "pos \<Rightarrow> rect \<Rightarrow> bool" where
  "same_line_centres p r =
     (case (pos_y p, pos_h p, rect_y r, rect_height r) of
        (Num y, Num h, Num ry, Num rh) \<Rightarrow> \<bar>(y + h / 2) - (ry + rh / 2)\<bar> < h / 2
      | _ \<Rightarrow> False)"

text \<open>The entries of the span \<open>[startIdx, endIdx)\<close> that the map has.\<close>

definition char_span :: "'a list \<Rightarrow> nat \<Rightarrow> nat \<Rightarrow> 'a list" where
  "char_span xs startIdx endIdx = drop startIdx (take endIdx xs)"

text \<open>
  The height that \<open>buildCharMap\<close> gives every character of an item:
  \<open>fontSize = Math.sqrt(tx[2] * tx[2] + tx[3] * tx[3])\<close>, and the top it gives them,
  \<open>tx[5] - fontSize\<close>.
\<close>

definition item_fontSize :: "(transform \<Rightarrow> transform \<Rightarrow> transform) option \<Rightarrow> transform \<Rightarrow> text_item \<Rightarrow> number" where
  "item_fontSize util vt item =
     (case item_tx util vt (item_transform item) of (t0, t1, t2, t3, t4, t5) \<Rightarrow>
        js_sqrt (js_add (js_mul t2 t2) (js_mul t3 t3)))"

definition item_top :: "(transform \<Rightarrow> transform \<Rightarrow> transform) option \<Rightarrow> transform \<Rightarrow> text_item \<Rightarrow> number" where
  "item_top util vt item =
     (case item_tx util vt (item_transform item) of (t0, t1, t2, t3, t4, t5) \<Rightarrow>
        js_sub t5 (js_sqrt (js_add (js_mul t2 t2) (js_mul t3 t3))))"

text \<open>The offset in the concatenated text at which the item after \<open>pre\<close> starts.\<close>

definition run_offset :: "text_item list \<Rightarrow> nat" where
  "run_offset pre = length (concat (map (\<lambda>it. item_str it @ '' '') pre))"

text \<open>
  The rectangles of a span, glyph run by glyph run. A run is regular when the top of its
  characters is finite and their height is positive. The rectangle of the characters
  \<open>i, \<dots>, k - 1\<close> of a run starts at the first of them, has its top and its height,
  and ends at the right edge of the last of them. A span gets, from every run of which it
  has characters, this one rectangle when the run is regular, and one rectangle for each
  character otherwise; the list \<open>run_rects\<close> goes through the runs with the span
  \<open>[s, e)\<close> counted from the start of the run at hand.
\<close>

definition regular_run :: "(transform \<Rightarrow> transform \<Rightarrow> transform) option \<Rightarrow> transform \<Rightarrow> text_item \<Rightarrow> bool" where
  "regular_run util vt item =
     (is_finite (item_top util vt item) \<and> js_lt (Num 0) (item_fontSize util vt item))"

definition run_pos :: "(transform \<Rightarrow> transform \<Rightarrow> transform) option \<Rightarrow> transform \<Rightarrow> text_item \<Rightarrow> nat \<Rightarrow> pos" where
  "run_pos util vt item i = the (item_chars util vt item ! i)"

definition run_rect :: "(transform \<Rightarrow> transform \<Rightarrow> transform) option \<Rightarrow> transform \<Rightarrow> text_item \<Rightarrow> nat \<Rightarrow> nat \<Rightarrow> rect" where
  "run_rect util vt item i k =
     (let first = run_pos util vt item i; last = run_pos util vt item (k - 1)
      in \<lparr>rect_x = pos_x first, rect_y = item_top util vt item,
          rect_width = (if k = Suc i then pos_w first
                        else js_sub (js_add (pos_x last) (pos_w last)) (pos_x first)),
          rect_height = item_fontSize util vt item\<rparr>)"

fun run_rects :: "(transform \<Rightarrow> transform \<Rightarrow> transform) option \<Rightarrow> transform \<Rightarrow> text_item list \<Rightarrow> nat \<Rightarrow> nat \<Rightarrow> rect list" where
  "run_rects util vt [] s e = []"
| "run_rects util vt (item # items) s e =
     (let n = length (item_str item)
      in (if s < min e n then
            (if regular_run util vt item then [run_rect util vt item s (min e n)]
             else map (\<lambda>i. open_rect (run_pos util vt item i)) [s ..< min e n])
          else []) @
         run_rects util vt items (s - Suc n) (e - Suc n))"

subsection \<open>Characters and string operations of the language\<close>

text \<open>\<open>\d\<close> is \<open>[0-9]\<close>; \<open>\s\<close> is the white space and line terminators (those below 256);
  \<open>\w\<close> is \<open>[A-Za-z0-9_]\<close>.\<close>

definition is_digit :: "char \<Rightarrow> bool" where
  "is_digit c = (let n = (of_char c :: nat) in 48 \<le> n \<and> n \<le> 57)"

definition is_space :: "char \<Rightarrow> bool" where
  "is_space c = (of_char c \<in> {9, 10, 11, 12, 13, 32, 160 :: nat})"

definition is_word_char :: "char \<Rightarrow> bool" where
  "is_word_char c =
     (let n = (of_char c :: nat)
      in (65 \<le> n \<and> n \<le> 90) \<or> (97 \<le> n \<and> n \<le> 122) \<or> (48 \<le> n \<and> n \<le> 57) \<or> n = 95)"

definition digit_val :: "char \<Rightarrow> int" where
  "digit_val c = int (of_char c) - 48"

text \<open>
  \<open>s.substring(a, b)\<close> and \<open>s.substring(a)\<close>: both indices are clamped to the length and
  swapped when out of order.
\<close>

definition substring :: "string \<Rightarrow> nat \<Rightarrow> nat \<Rightarrow> string" where
  "substring s a b =
     (let a' = min a (length s); b' = min b (length s); lo = min a' b'; hi = max a' b'
      in take (hi - lo) (drop lo s))"

definition substring_from :: "string \<Rightarrow> nat \<Rightarrow> string" where
  "substring_from s a = substring s a (length s)"

text \<open>
  \<open>parseInt(s)\<close> and \<open>parseInt(s, radix)\<close>; \<open>None\<close> is \<open>NaN\<close>, and the radix 0 stands
  for a radix that is not given. Leading white space is skipped, a sign is read, a
  \<open>0x\<close> prefix selects radix 16 when the radix is not given or is 16, and the longest
  prefix of digits of the radix is the value; no digit gives \<open>NaN\<close>. (The value is exact:
  the source calls it on at most three characters.)
\<close>

definition radix_digit :: "nat \<Rightarrow> char \<Rightarrow> nat option" where
  "radix_digit R c =
     (let n = (of_char c :: nat);
          v = (if 48 \<le> n \<and> n \<le> 57 then Some (n - 48)
               else if 97 \<le> n \<and> n \<le> 122 then Some (n - 87)
               else if 65 \<le> n \<and> n \<le> 90 then Some (n - 55)
               else None)
      in case v of Some d \<Rightarrow> (if d < R then Some d else None) | None \<Rightarrow> None)"

fun radix_value :: "nat \<Rightarrow> string \<Rightarrow> int \<Rightarrow> int" where
  "radix_value R [] acc = acc"
| "radix_value R (c # cs) acc =
     (case radix_digit R c of
        Some d \<Rightarrow> radix_value R cs (acc * int R + int d)
      | None \<Rightarrow> acc)"

definition parseInt :: "string \<Rightarrow> nat \<Rightarrow> int option" where
  "parseInt inputString radix =
     (let S = dropWhile is_space inputString;
          sign = (if S \<noteq> [] \<and> hd S = CHR ''-'' then - 1 else 1 :: int);
          S = (if S \<noteq> [] \<and> (hd S = CHR ''+'' \<or> hd S = CHR ''-'') then tl S else S);
          stripPrefix = (radix = 0 \<or> radix = 16);
          R = (if radix = 0 then 10 else radix)
      in if R < 2 \<or> 36 < R then None
         else
           let hex = (stripPrefix \<and> (take 2 S = ''0x'' \<or> take 2 S = ''0X''));
               S = (if hex then drop 2 S else S);
               R = (if hex then 16 else R)
           in if S = [] \<or> radix_digit R (hd S) = None then None
              else Some (sign * radix_value R S 0))"

subsection \<open>Validators\<close>

text \<open>\<open>match.replace(/[-\s]/g, '')\<close> and \<open>match.replace(/\D/g, '')\<close>.\<close>

definition strip_separators :: "string \<Rightarrow> string" where
  "strip_separators m = filter (\<lambda>c. \<not> (c = CHR ''-'' \<or> is_space c)) m"

definition strip_non_digits :: "string \<Rightarrow> string" where
  "strip_non_digits m = filter is_digit m"

text \<open>\<open>REDACTION_PATTERNS.ssn.validate\<close>. A comparison with \<open>NaN\<close> is false.\<close>

definition ssn_validate :: "string \<Rightarrow> bool" where
  "ssn_validate m =
     (let digits = strip_separators m
      in if length digits \<noteq> 9 then False
         else
           let area = parseInt (substring digits 0 3) 0
           in if area = Some 0 \<or> area = Some 666 \<or> (case area of Some a \<Rightarrow> 900 \<le> a | None \<Rightarrow> False)
              then False
              else if substring digits 3 5 = ''00'' then False
              else if substring_from digits 5 = ''0000'' then False
              else True)"

text \<open>
  \<open>luhnCheck\<close>: the loop runs \<open>i\<close> from \<open>num.length - 1\<close> down to 0; the counter \<open>k\<close> is
  \<open>i + 1\<close>. The running sum \<open>acc\<close> is a number or \<open>NaN\<close> (\<open>None\<close>): \<open>parseInt(num[i], 10)\<close> is \<open>NaN\<close> for
  a character that is no digit, \<open>NaN > 9\<close> is false, and a sum with \<open>NaN\<close> is \<open>NaN\<close>.
\<close>

definition luhn_step :: "int option \<Rightarrow> bool \<Rightarrow> int option" where
  "luhn_step n alt =
     (if alt then
        (let n2 = map_option (\<lambda>v. v * 2) n
         in case n2 of Some v \<Rightarrow> (if 9 < v then Some (v - 9) else Some v) | None \<Rightarrow> None)
      else n)"

definition num_add :: "int option \<Rightarrow> int option \<Rightarrow> int option" where
  "num_add a b = (case (a, b) of (Some x, Some y) \<Rightarrow> Some (x + y) | _ \<Rightarrow> None)"

fun luhn_loop :: "string \<Rightarrow> nat \<Rightarrow> int option \<Rightarrow> bool \<Rightarrow> int option" where
  "luhn_loop num 0 acc alt = acc"
| "luhn_loop num (Suc i) acc alt =
     (let n = parseInt [num ! i] 10;
          n = luhn_step n alt
      in luhn_loop num i (num_add acc n) (\<not> alt))"

text \<open>\<open>sum % 10 === 0\<close>: the remainder is 0 exactly when 10 divides the sum, whatever the
  sign of the sum; \<open>NaN % 10\<close> is \<open>NaN\<close>.\<close>

definition luhnCheck :: "string \<Rightarrow> bool" where
  "luhnCheck num =
     (case luhn_loop num (length num) (Some 0) False of
        Some s \<Rightarrow> s mod 10 = 0
      | None \<Rightarrow> False)"

text \<open>\<open>REDACTION_PATTERNS.creditCard.validate\<close>.\<close>

definition creditCard_validate :: "string \<Rightarrow> bool" where
  "creditCard_validate m =
     (let digits = strip_separators m
      in if length digits < 13 \<or> 19 < length digits then False
         else luhnCheck digits)"

text \<open>\<open>REDACTION_PATTERNS.phone.validate\<close>.\<close>

definition phone_validate :: "string \<Rightarrow> bool" where
  "phone_validate m =
     (let digits = strip_non_digits m
      in 10 \<le> length digits \<and> length digits \<le> 11)"

text \<open>
  The credit-card rule in the words of the specification: the Luhn checksum of a string
  of digits. Counting from the rightmost digit, every second digit is doubled, 9 is
  subtracted from a doubled digit above 9, and the sum of all digits is a multiple of 10.
\<close>

definition luhn_digit :: "nat \<Rightarrow> int \<Rightarrow> int" where
  "luhn_digit k v = (if odd k then (if 9 < 2 * v then 2 * v - 9 else 2 * v) else v)"

definition luhn_sum :: "string \<Rightarrow> int" where
  "luhn_sum ds = (\<Sum>k < length ds. luhn_digit k (digit_val (rev ds ! k)))"

definition luhn_valid :: "string \<Rightarrow> bool" where
  "luhn_valid ds = (luhn_sum ds mod 10 = 0)"

text \<open>
  The SSN rule in the words of the specification, on a string of nine digits: the area
  (first three digits) is not 000, not 666 and not in 900-999, the group (next two) is not
  00, and the serial (last four) is not 0000.
\<close>

definition ssn_rule :: "string \<Rightarrow> bool" where
  "ssn_rule d =
     (length d = 9 \<and> list_all is_digit d \<and>
      take 3 d \<noteq> ''000'' \<and> take 3 d \<noteq> ''666'' \<and> hd d \<noteq> CHR ''9'' \<and>
      take 2 (drop 3 d) \<noteq> ''00'' \<and> drop 5 d \<noteq> ''0000'')"

text \<open>\<open>escapeRegex\<close>: \<open>string.replace(/[.*+?^${}()|[\]\\]/g, '\\$&')\<close> puts a backslash before
  every character of the class.\<close>

definition backslash :: char where
  "backslash = CHR 0x5C"

definition escaped_class :: "char list" where
  "escaped_class = ''.*+?^${}()|[]'' @ [backslash]"

definition escapeRegex :: "string \<Rightarrow> string" where
  "escapeRegex s = concat (map (\<lambda>c. if c \<in> set escaped_class then [backslash, c] else [c]) s)"

subsection \<open>Regular expressions of the language\<close>

text \<open>
  The regular-expression literals of the pattern table are embedded as terms of a
  datatype, and matched by a function that follows the backtracking semantics of the
  language for this fragment: character classes, the assertion \<open>\b\<close>, sequence,
  alternation, and the greedy quantifiers \<open>{m}\<close>, \<open>{m,n}\<close>, \<open>{m,}\<close>, \<open>?\<close>, \<open>*\<close>, \<open>+\<close>.
\<close>

datatype cls = Ch char | Rng char char | Digit | Space

datatype rexp =
    Cset "cls list"
  | Bnd
  | Eps
  | Seq rexp rexp
  | Alt rexp rexp
  | Rep nat "nat option" rexp

text \<open>
  \<open>Canonicalize\<close> under the flag \<open>i\<close>: the upper-case form of a letter (of the basic
  alphabet, or of the letters between 224 and 254 other than the division sign).
\<close>

definition canonicalize :: "char \<Rightarrow> char" where
  "canonicalize c =
     (let n = (of_char c :: nat)
      in if (97 \<le> n \<and> n \<le> 122) \<or> (224 \<le> n \<and> n \<le> 254 \<and> n \<noteq> 247) then char_of (n - 32) else c)"

definition char_range :: "char \<Rightarrow> char \<Rightarrow> char list" where
  "char_range lo hi = map char_of [of_char lo ..< Suc (of_char hi)]"

text \<open>Membership of a character in a class atom, without and with the flag \<open>i\<close>: with it,
  some member of the atom has the same canonical form as the character.\<close>

fun cls_mem :: "bool \<Rightarrow> cls \<Rightarrow> char \<Rightarrow> bool" where
  "cls_mem ic (Ch c) ch = (if ic then canonicalize c = canonicalize ch else c = ch)"
| "cls_mem ic (Rng lo hi) ch =
     (if ic then list_ex (\<lambda>a. canonicalize a = canonicalize ch) (char_range lo hi)
      else (of_char lo :: nat) \<le> of_char ch \<and> (of_char ch :: nat) \<le> of_char hi)"
| "cls_mem ic Digit ch = is_digit ch"
| "cls_mem ic Space ch = is_space ch"

definition cset_mem :: "bool \<Rightarrow> cls list \<Rightarrow> char \<Rightarrow> bool" where
  "cset_mem ic cs ch = list_ex (\<lambda>cl. cls_mem ic cl ch) cs"

text \<open>\<open>\b\<close> holds at \<open>i\<close> when exactly one of the characters before and at \<open>i\<close> is a word
  character; beyond either end of the input there is none.\<close>

definition word_boundary :: "string \<Rightarrow> nat \<Rightarrow> bool" where
  "word_boundary s i =
     ((0 < i \<and> i - 1 < length s \<and> is_word_char (s ! (i - 1))) \<noteq> (i < length s \<and> is_word_char (s ! i)))"

fun rsize :: "rexp \<Rightarrow> nat" where
  "rsize (Cset cs) = 1"
| "rsize Bnd = 1"
| "rsize Eps = 1"
| "rsize (Seq a b) = rsize a + rsize b + 1"
| "rsize (Alt a b) = rsize a + rsize b + 1"
| "rsize (Rep mn mx r) = rsize r + 1"

fun rep_min :: "rexp \<Rightarrow> nat" where
  "rep_min (Rep mn mx r) = mn"
| "rep_min r = 0"

text \<open>
  \<open>ends ic r s i\<close>: the end indices of the matches of \<open>r\<close> in \<open>s\<close> that start at \<open>i\<close>, in the
  order in which backtracking tries them (the first is the match the language reports).
  A quantifier with a positive minimum runs its body and continues with the minimum one
  less; with minimum 0 it first runs its body, where an iteration that consumed nothing
  fails, and then tries to stop. A maximum of 0 stops.
\<close>

function ends :: "bool \<Rightarrow> rexp \<Rightarrow> string \<Rightarrow> nat \<Rightarrow> nat list" where
  "ends ic (Cset cs) s i = (if i < length s \<and> cset_mem ic cs (s ! i) then [i + 1] else [])"
| "ends ic Bnd s i = (if word_boundary s i then [i] else [])"
| "ends ic Eps s i = [i]"
| "ends ic (Seq a b) s i = concat (map (\<lambda>j. ends ic b s j) (ends ic a s i))"
| "ends ic (Alt a b) s i = ends ic a s i @ ends ic b s i"
| "ends ic (Rep mn mx r) s i =
     (if mx = Some 0 then [i]
      else if 0 < mn then
        concat (map (\<lambda>j. ends ic (Rep (mn - 1) (map_option (\<lambda>m. m - 1) mx) r) s j) (ends ic r s i))
      else
        concat (map (\<lambda>j. if i < j \<and> j \<le> length s
                          then ends ic (Rep 0 (map_option (\<lambda>m. m - 1) mx) r) s j else [])
                    (ends ic r s i)) @ [i])"
  by pat_completeness auto
termination
  by (relation "inv_image (less_than <*lex*> less_than <*lex*> less_than)
        (\<lambda>(ic, r, s, i). (rsize r, rep_min r, length s - i))") auto

declare ends.simps(6) [simp del]

text \<open>
  \<open>regex.exec(text)\<close> of a regular expression with the flag \<open>g\<close>, as a function of the
  text and of \<open>lastIndex\<close>: the match is sought at \<open>lastIndex\<close>, then at each later index,
  and there is none when \<open>lastIndex\<close> is beyond the text. The result is the pair of
  \<open>match.index\<close> and \<open>match[0]\<close>.
\<close>

type_synonym regex = "string \<Rightarrow> nat \<Rightarrow> (nat \<times> string) option"

function rx_exec :: "bool \<Rightarrow> rexp \<Rightarrow> regex" where
  "rx_exec ic r s i =
     (if length s < i then None
      else (case ends ic r s i of
              e # es \<Rightarrow> Some (i, substring s i e)
            | [] \<Rightarrow> rx_exec ic r s (i + 1)))"
  by pat_completeness auto
termination
  by (relation "measure (\<lambda>(ic, r, s, i). length s + 1 - i)") auto

declare rx_exec.simps [simp del]

text \<open>Abbreviations for the syntax of the literals.\<close>

definition digit :: rexp where
  "digit = Cset [Digit]"

definition chr1 :: "char \<Rightarrow> rexp" where
  "chr1 c = Cset [Ch c]"

definition opt :: "rexp \<Rightarrow> rexp" where
  "opt r = Rep 0 (Some 1) r"

definition star :: "rexp \<Rightarrow> rexp" where
  "star r = Rep 0 None r"

definition plus1 :: "rexp \<Rightarrow> rexp" where
  "plus1 r = Rep 1 None r"

definition exactly :: "nat \<Rightarrow> rexp \<Rightarrow> rexp" where
  "exactly n r = Rep n (Some n) r"

fun seq_of :: "rexp list \<Rightarrow> rexp" where
  "seq_of [] = Eps"
| "seq_of [r] = r"
| "seq_of (r # rs) = Seq r (seq_of rs)"

fun alt_of :: "rexp list \<Rightarrow> rexp" where
  "alt_of [] = Eps"
| "alt_of [r] = r"
| "alt_of (r # rs) = Alt r (alt_of rs)"

definition lit :: "string \<Rightarrow> rexp" where
  "lit s = seq_of (map chr1 s)"

text \<open>The class \<open>[-\s]\<close>, and the five literals of the table.\<close>

definition sep :: rexp where
  "sep = Cset [Ch CHR ''-'', Space]"

text \<open>\<open>/\b\d{3}[-\s]?\d{2}[-\s]?\d{4}\b/g\<close>\<close>

definition ssn_rexp :: rexp where
  "ssn_rexp = seq_of [Bnd, exactly 3 digit, opt sep, exactly 2 digit, opt sep, exactly 4 digit, Bnd]"

text \<open>\<open>/\b(?:\d{4}[-\s]?){3}\d{1,4}\b/g\<close>\<close>

definition creditCard_rexp :: rexp where
  "creditCard_rexp = seq_of [Bnd, exactly 3 (seq_of [exactly 4 digit, opt sep]), Rep 1 (Some 4) digit, Bnd]"

text \<open>\<open>/\b[A-Za-z0-9._%+\-]+@[A-Za-z0-9.\-]+\.[A-Za-z]{2,}\b/g\<close>\<close>

definition email_rexp :: rexp where
  "email_rexp =
     seq_of [Bnd,
          plus1 (Cset [Rng CHR ''A'' CHR ''Z'', Rng CHR ''a'' CHR ''z'', Rng CHR ''0'' CHR ''9'',
                         Ch CHR ''.'', Ch CHR ''_'', Ch CHR ''%'', Ch CHR ''+'', Ch CHR ''-'']),
          chr1 CHR ''@'',
          plus1 (Cset [Rng CHR ''A'' CHR ''Z'', Rng CHR ''a'' CHR ''z'', Rng CHR ''0'' CHR ''9'',
                         Ch CHR ''.'', Ch CHR ''-'']),
          chr1 CHR ''.'',
          Rep 2 None (Cset [Rng CHR ''A'' CHR ''Z'', Rng CHR ''a'' CHR ''z'']),
          Bnd]"

text \<open>\<open>/(?:\+?1[-.\s]?)?\(?\d{3}\)?[-.\s]?\d{3}[-.\s]?\d{4}\b/g\<close>\<close>

definition phone_sep :: rexp where
  "phone_sep = Cset [Ch CHR ''-'', Ch CHR ''.'', Space]"

definition phone_rexp :: rexp where
  "phone_rexp =
     seq_of [opt (seq_of [opt (chr1 CHR ''+''), chr1 CHR ''1'', opt phone_sep]),
          opt (chr1 CHR ''(''), exactly 3 digit, opt (chr1 CHR '')''), opt phone_sep,
          exactly 3 digit, opt phone_sep, exactly 4 digit, Bnd]"

text \<open>\<open>/\b(?:\d{1,2}[\/\-]\d{1,2}[\/\-]\d{2,4}|(?:Jan|Feb|Mar|Apr|May|Jun|Jul|Aug|Sep|Oct|Nov|Dec)[a-z]*\.?\s+\d{1,2},?\s+\d{4})\b/gi\<close>\<close>

definition date_sep :: rexp where
  "date_sep = Cset [Ch CHR ''/'', Ch CHR ''-'']"

definition date_rexp :: rexp where
  "date_rexp =
     seq_of [Bnd,
          alt_of [seq_of [Rep 1 (Some 2) digit, date_sep, Rep 1 (Some 2) digit, date_sep, Rep 2 (Some 4) digit],
               seq_of [alt_of [lit ''Jan'', lit ''Feb'', lit ''Mar'', lit ''Apr'', lit ''May'', lit ''Jun'',
                         lit ''Jul'', lit ''Aug'', lit ''Sep'', lit ''Oct'', lit ''Nov'', lit ''Dec''],
                    star (Cset [Rng CHR ''a'' CHR ''z'']), opt (chr1 CHR ''.''),
                    plus1 (Cset [Space]), Rep 1 (Some 2) digit, opt (chr1 CHR '',''),
                    plus1 (Cset [Space]), exactly 4 digit]],
          Bnd]"

subsection \<open>The strings an expression can match\<close>

text \<open>
  The shape of the matches of an expression: the set of strings it can match, whatever
  the text around them (an assertion matches the empty string). A quantifier is well
  formed when its minimum does not exceed its maximum, as the language requires of a
  pattern.
\<close>

fun lpow :: "string set \<Rightarrow> nat \<Rightarrow> string set" where
  "lpow A 0 = {[]}"
| "lpow A (Suc n) = {x @ y | x y. x \<in> A \<and> y \<in> lpow A n}"

fun rep_count :: "nat \<Rightarrow> nat option \<Rightarrow> nat \<Rightarrow> bool" where
  "rep_count mn None k = (mn \<le> k)"
| "rep_count mn (Some mx) k = (mn \<le> k \<and> k \<le> mx)"

fun lang :: "bool \<Rightarrow> rexp \<Rightarrow> string set" where
  "lang ic (Cset cs) = {[c] | c. cset_mem ic cs c}"
| "lang ic Bnd = {[]}"
| "lang ic Eps = {[]}"
| "lang ic (Seq a b) = {x @ y | x y. x \<in> lang ic a \<and> y \<in> lang ic b}"
| "lang ic (Alt a b) = lang ic a \<union> lang ic b"
| "lang ic (Rep mn mx r) = {w. \<exists>k. rep_count mn mx k \<and> w \<in> lpow (lang ic r) k}"

fun wf_rexp :: "rexp \<Rightarrow> bool" where
  "wf_rexp (Seq a b) = (wf_rexp a \<and> wf_rexp b)"
| "wf_rexp (Alt a b) = (wf_rexp a \<and> wf_rexp b)"
| "wf_rexp (Rep mn mx r) = ((case mx of None \<Rightarrow> True | Some m \<Rightarrow> mn \<le> m) \<and> wf_rexp r)"
| "wf_rexp r = True"

text \<open>The character classes that occur in an expression.\<close>

fun csets :: "rexp \<Rightarrow> cls list list" where
  "csets (Cset cs) = [cs]"
| "csets (Seq a b) = csets a @ csets b"
| "csets (Alt a b) = csets a @ csets b"
| "csets (Rep mn mx r) = csets r"
| "csets r = []"

subsection \<open>The pattern table and searchPatterns\<close>

text \<open>An entry of \<open>REDACTION_PATTERNS\<close>: its regular expression (\<open>null\<close> for \<open>custom\<close>) and
  its validator.\<close>

record pattern =
  pat_regex :: "regex option"
  pat_validate :: "string \<Rightarrow> bool"

text \<open>\<open>REDACTION_PATTERNS[patternName]\<close>; a name that is no key of the table gives no
  pattern to search.\<close>

definition REDACTION_PATTERNS :: "string \<Rightarrow> pattern option" where
  "REDACTION_PATTERNS patternName =
     (if patternName = ''ssn'' then
        Some \<lparr>pat_regex = Some (rx_exec False ssn_rexp), pat_validate = ssn_validate\<rparr>
      else if patternName = ''creditCard'' then
        Some \<lparr>pat_regex = Some (rx_exec False creditCard_rexp), pat_validate = creditCard_validate\<rparr>
      else if patternName = ''email'' then
        Some \<lparr>pat_regex = Some (rx_exec False email_rexp), pat_validate = (\<lambda>m. True)\<rparr>
      else if patternName = ''phone'' then
        Some \<lparr>pat_regex = Some (rx_exec False phone_rexp), pat_validate = phone_validate\<rparr>
      else if patternName = ''date'' then
        Some \<lparr>pat_regex = Some (rx_exec True date_rexp), pat_validate = (\<lambda>m. True)\<rparr>
      else if patternName = ''custom'' then
        Some \<lparr>pat_regex = None, pat_validate = (\<lambda>m. True)\<rparr>
      else None)"

text \<open>A page of the document: its text-content items and the transform of its viewport
  at scale 1. A result of the search.\<close>

record page =
  page_items :: "text_item list"
  page_viewport :: transform

record search_result =
  res_pageNum :: nat
  res_pattern :: string
  res_text :: string
  res_rects :: "rect list"

datatype js_error = SyntaxError

text \<open>
  The regular expression searched for one pattern name. \<open>new RegExp(source, 'gi')\<close> is
  the parameter \<open>RegExp_gi\<close>: it gives the compiled expression, or \<open>None\<close> when it throws a
  \<open>SyntaxError\<close>. For the name \<open>custom\<close> with a truthy \<open>customPattern\<close> the source is
  compiled; when that throws, the escaped source is compiled, outside any \<open>try\<close>.
\<close>

definition pattern_regex ::
  "(string \<Rightarrow> regex option) \<Rightarrow> string \<Rightarrow> pattern \<Rightarrow> string option \<Rightarrow> js_error + regex option" where
  "pattern_regex RegExp_gi patternName pattern customPattern =
     (case customPattern of
        Some cp \<Rightarrow>
          if patternName = ''custom'' \<and> cp \<noteq> [] then
            (case RegExp_gi cp of
               Some regex \<Rightarrow> Inr (Some regex)
             | None \<Rightarrow>
                 (case RegExp_gi (escapeRegex cp) of
                    Some regex \<Rightarrow> Inr (Some regex)
                  | None \<Rightarrow> Inl SyntaxError))
          else Inr (pat_regex pattern)
      | None \<Rightarrow> Inr (pat_regex pattern))"

text \<open>
  The \<open>while ((match = regex.exec(fullText)) !== null)\<close> loop, with the state
  \<open>lastIndex\<close> and \<open>results\<close>. After a match \<open>lastIndex\<close> is the end of the match. The loop
  need not end: \<open>None\<close> is a loop that never returns.
\<close>

partial_function (option) match_loop ::
  "regex \<Rightarrow> (string \<Rightarrow> bool) \<Rightarrow> string \<Rightarrow> char_map \<Rightarrow> nat \<Rightarrow> string \<Rightarrow> nat \<Rightarrow>
   search_result list \<Rightarrow> search_result list option" where
  "match_loop regex validate fullText charMap pageNum patternName lastIndex results =
     (case regex fullText lastIndex of
        None \<Rightarrow> Some results
      | Some (index, matchText) \<Rightarrow>
          if \<not> validate matchText
          then match_loop regex validate fullText charMap pageNum patternName
                 (index + length matchText) results
          else
            let startIdx = index;
                endIdx = startIdx + length matchText;
                rects = getRectsForRange charMap startIdx endIdx
            in if 0 < length rects
               then match_loop regex validate fullText charMap pageNum patternName
                      (index + length matchText)
                      (results @ [\<lparr>res_pageNum = pageNum, res_pattern = patternName,
                                    res_text = matchText, res_rects = rects\<rparr>])
               else match_loop regex validate fullText charMap pageNum patternName
                      (index + length matchText) results)"

text \<open>The loop over the pattern names for one page. \<open>Some (Inl e)\<close> is an exception that
  leaves \<open>searchPatterns\<close>, \<open>None\<close> a page whose search never returns.\<close>

fun search_names ::
  "(string \<Rightarrow> regex option) \<Rightarrow> string option \<Rightarrow> string \<Rightarrow> char_map \<Rightarrow> nat \<Rightarrow> string list \<Rightarrow>
   search_result list \<Rightarrow> (js_error + search_result list) option" where
  "search_names RegExp_gi customPattern fullText charMap pageNum [] results = Some (Inr results)"
| "search_names RegExp_gi customPattern fullText charMap pageNum (patternName # names) results =
     (case REDACTION_PATTERNS patternName of
        None \<Rightarrow> search_names RegExp_gi customPattern fullText charMap pageNum names results
      | Some pattern \<Rightarrow>
          (case pattern_regex RegExp_gi patternName pattern customPattern of
             Inl e \<Rightarrow> Some (Inl e)
           | Inr None \<Rightarrow> search_names RegExp_gi customPattern fullText charMap pageNum names results
           | Inr (Some regex) \<Rightarrow>
               (case match_loop regex (pat_validate pattern) fullText charMap pageNum patternName 0 results of
                  None \<Rightarrow> None
                | Some results' \<Rightarrow>
                    search_names RegExp_gi customPattern fullText charMap pageNum names results')))"

text \<open>The loop over the pages, from page number \<open>pageNum\<close>.\<close>

fun search_pages ::
  "(string \<Rightarrow> regex option) \<Rightarrow> (transform \<Rightarrow> transform \<Rightarrow> transform) option \<Rightarrow> string list \<Rightarrow>
   string option \<Rightarrow> page list \<Rightarrow> nat \<Rightarrow> search_result list \<Rightarrow> (js_error + search_result list) option" where
  "search_pages RegExp_gi util patternNames customPattern [] pageNum results = Some (Inr results)"
| "search_pages RegExp_gi util patternNames customPattern (pg # pages) pageNum results =
     (case buildCharMap util (page_viewport pg) (page_items pg) of (fullText, charMap) \<Rightarrow>
        (case search_names RegExp_gi customPattern fullText charMap pageNum patternNames results of
           None \<Rightarrow> None
         | Some (Inl e) \<Rightarrow> Some (Inl e)
         | Some (Inr results') \<Rightarrow>
             search_pages RegExp_gi util patternNames customPattern pages (pageNum + 1) results'))"

text \<open>\<open>searchPatterns(pdfDoc, patternNames, customPattern)\<close>; a \<open>pdfDoc\<close> that is \<open>null\<close> is
  \<open>None\<close>, and the document is the list of its pages.\<close>

definition searchPatterns ::
  "(string \<Rightarrow> regex option) \<Rightarrow> (transform \<Rightarrow> transform \<Rightarrow> transform) option \<Rightarrow> page list option \<Rightarrow>
   string list \<Rightarrow> string option \<Rightarrow> (js_error + search_result list) option" where
  "searchPatterns RegExp_gi util pdfDoc patternNames customPattern =
     (case pdfDoc of
        None \<Rightarrow> Some (Inr [])
      | Some pages \<Rightarrow> search_pages RegExp_gi util patternNames customPattern pages 1 [])"

text \<open>
  The syntax characters of the pattern grammar, and the source text that writes a string
  as a pattern of characters that stand for themselves: a syntax character is written
  with a backslash before it (an identity escape), any other character as it is.
\<close>

definition syntax_character :: "char \<Rightarrow> bool" where
  "syntax_character c = (c \<in> set (''^$'' @ [backslash] @ ''.*+?()[]{}|''))"

definition quote_pattern :: "string \<Rightarrow> string" where
  "quote_pattern s = concat (map (\<lambda>c. if syntax_character c then [backslash, c] else [c]) s)"

text \<open>
  What the language guarantees of \<open>new RegExp(source, 'gi')\<close> on such a source: it does
  not throw, and the expression matches the characters of the string one after the
  other, under the flag \<open>i\<close>.
\<close>

definition compiles_literals :: "(string \<Rightarrow> regex option) \<Rightarrow> bool" where
  "compiles_literals RegExp_gi = (\<forall>s. RegExp_gi (quote_pattern s) = Some (rx_exec True (lit s)))"

text \<open>
  A constructor that compiles exactly these sources, and throws on any other: an instance
  of the parameter for concrete runs.
\<close>

fun unquote_pattern :: "string \<Rightarrow> string option" where
  "unquote_pattern [] = Some []"
| "unquote_pattern (c # cs) =
     (if c = backslash then
        (case cs of
           [] \<Rightarrow> None
         | d # ds \<Rightarrow> if syntax_character d then map_option ((#) d) (unquote_pattern ds) else None)
      else if syntax_character c then None
      else map_option ((#) c) (unquote_pattern cs))"

definition RegExp_literal :: "string \<Rightarrow> regex option" where
  "RegExp_literal source = map_option (\<lambda>s. rx_exec True (lit s)) (unquote_pattern source)"

text \<open>
  Literal search in the words of the specification: the first index, from \<open>lastIndex\<close>
  on, at which the text continues with the characters of the pattern, compared in
  canonical (case-folded) form; the match is that part of the text.
\<close>

function find_literal :: "string \<Rightarrow> regex" where
  "find_literal pat text i =
     (if length text < i then None
      else if map canonicalize (take (length pat) (drop i text)) = map canonicalize pat
           then Some (i, take (length pat) (drop i text))
           else find_literal pat text (i + 1))"
  by pat_completeness auto
termination
  by (relation "measure (\<lambda>(pat, text, i). length text + 1 - i)") auto

declare find_literal.simps [simp del]

text \<open>An expression that cannot match the empty string.\<close>

fun nullable :: "rexp \<Rightarrow> bool" where
  "nullable (Cset cs) = False"
| "nullable Bnd = True"
| "nullable Eps = True"
| "nullable (Seq a b) = (nullable a \<and> nullable b)"
| "nullable (Alt a b) = (nullable a \<or> nullable b)"
| "nullable (Rep mn mx r) = (mn = 0 \<or> mx = Some 0 \<or> nullable r)"

text \<open>
  A regular expression makes progress when every match it reports starts at or after
  \<open>lastIndex\<close>, is not empty, and ends within the text.
\<close>

definition progresses :: "regex \<Rightarrow> bool" where
  "progresses regex =
     (\<forall>fullText i idx m. regex fullText i = Some (idx, m) \<longrightarrow>
        i \<le> idx \<and> m \<noteq> [] \<and> idx + length m \<le> length fullText)"

subsection \<open>OCR word boxes: from raster pixels to document points\<close>

text \<open>
  The claim about the OCR conversion is about a tolerance, so this part models the
  arithmetic of the language: a number is a double, and each operation is the exact
  operation followed by the rounding \<open>rnd\<close> to a double, which is a parameter. The
  identity is the exact arithmetic. Rounding to the nearest double satisfies
  \<open>rounds_to_double\<close>: on a result that does not overflow, the error is at most the
  relative error \<open>2 ^ -53\<close> of a normal double plus the absolute error \<open>2 ^ -1075\<close> of
  a subnormal one.
\<close>

definition rounds_to_double :: "(real \<Rightarrow> real) \<Rightarrow> bool" where
  "rounds_to_double rnd =
     (\<forall>x. \<bar>x\<bar> \<le> 2 ^ 1023 \<longrightarrow> \<bar>rnd x - x\<bar> \<le> \<bar>x\<bar> / 2 ^ 53 + 1 / 2 ^ 1075)"

text \<open>
  Rounding to nearest as a function on the reals: the value of \<open>to_double\<close> where the
  result is finite.
\<close>

definition double_value :: "real \<Rightarrow> real" where
  "double_value x = (case to_double x of Num y \<Rightarrow> y | _ \<Rightarrow> 0)"

definition OCR_DPI :: real where
  "OCR_DPI = 300"

definition PDF_DPI :: real where
  "PDF_DPI = 72"

definition SCALE_FACTOR :: "(real \<Rightarrow> real) \<Rightarrow> real" where
  "SCALE_FACTOR rnd = rnd (OCR_DPI / PDF_DPI)"

text \<open>A box \<open>{x0, y0, x1, y1}\<close> and a recognised word.\<close>

record bbox =
  bbox_x0 :: real
  bbox_y0 :: real
  bbox_x1 :: real
  bbox_y1 :: real

record ocr_word =
  word_text :: string
  word_bbox :: bbox
  word_confidence :: real

text \<open>\<open>pdfBbox\<close> in \<open>runOCR\<close>: every coordinate of the word box divided by \<open>SCALE_FACTOR\<close>.\<close>

definition pdfBbox :: "(real \<Rightarrow> real) \<Rightarrow> bbox \<Rightarrow> bbox" where
  "pdfBbox rnd b =
     \<lparr>bbox_x0 = rnd (bbox_x0 b / SCALE_FACTOR rnd),
      bbox_y0 = rnd (bbox_y0 b / SCALE_FACTOR rnd),
      bbox_x1 = rnd (bbox_x1 b / SCALE_FACTOR rnd),
      bbox_y1 = rnd (bbox_y1 b / SCALE_FACTOR rnd)\<rparr>"

text \<open>The word that \<open>runOCR\<close> stores: \<open>words.push({text, bbox: pdfBbox, confidence})\<close>.\<close>

definition stored_word :: "(real \<Rightarrow> real) \<Rightarrow> ocr_word \<Rightarrow> ocr_word" where
  "stored_word rnd word =
     \<lparr>word_text = word_text word, word_bbox = pdfBbox rnd (word_bbox word),
      word_confidence = word_confidence word\<rparr>"

text \<open>The width read from a stored word, as \<open>getOCRTextEntries\<close> does:
  \<open>word.bbox.x1 - word.bbox.x0\<close>.\<close>

definition stored_width :: "(real \<Rightarrow> real) \<Rightarrow> ocr_word \<Rightarrow> real" where
  "stored_width rnd word = rnd (bbox_x1 (word_bbox word) - bbox_x0 (word_bbox word))"

subsection \<open>Properties of rounding\<close>

lemma ulp_pos: "0 < ulp x" by (simp add: ulp_def)

lemma two_powr_neg: "(2::real) powr (- real n) = 1 / 2 ^ n"
  by (simp add: powr_minus_divide powr_realpow)

lemma MIN_VALUE_powr: "MIN_VALUE = 2 powr (- real 1074)"
  unfolding MIN_VALUE_def by (simp only: two_powr_neg)

lemma MIN_NORMAL_powr: "MIN_NORMAL = 2 powr (- real 1022)"
  unfolding MIN_NORMAL_def by (simp only: two_powr_neg)

lemma MIN_pos: "0 < MIN_VALUE" "0 < MIN_NORMAL" "0 < OVERFLOW"
  by (simp_all add: MIN_VALUE_powr MIN_NORMAL_powr OVERFLOW_def)

lemma MIN_NORMAL_eq: "MIN_NORMAL = 2 ^ 52 * MIN_VALUE"
proof -
  have "(2::real) ^ 52 * 2 powr (- real 1074) = 2 powr 52 * 2 powr (- real 1074)"
    by (simp add: powr_realpow [symmetric])
  also have "\<dots> = 2 powr (- real 1022)" by (simp only: powr_add [symmetric]) simp
  finally show ?thesis by (simp only: MIN_VALUE_powr MIN_NORMAL_powr)
qed

lemma ulp_min: "MIN_VALUE \<le> ulp x"
  unfolding MIN_VALUE_powr ulp_def
  by (rule powr_mono) (simp_all add: binade_def)

lemma rhe_int: "round_half_even (of_int m) = m"
  by (simp add: round_half_even_def)

lemma rhe_ge: "of_int m \<le> r \<Longrightarrow> m \<le> round_half_even r"
proof -
  assume "of_int m \<le> r"
  then have "m \<le> \<lfloor>r\<rfloor>" by (simp add: le_floor_iff)
  then show ?thesis by (simp add: round_half_even_def Let_def)
qed

lemma rhe_le: "r \<le> of_int m \<Longrightarrow> round_half_even r \<le> m"
proof -
  assume a: "r \<le> of_int m"
  then have f: "\<lfloor>r\<rfloor> \<le> m" by (simp add: floor_le_iff)
  show ?thesis
  proof (cases "r - of_int \<lfloor>r\<rfloor> < 1 / 2")
    case True
    with f show ?thesis by (simp add: round_half_even_def Let_def)
  next
    case False
    then have "of_int \<lfloor>r\<rfloor> < r" by linarith
    with a have "of_int \<lfloor>r\<rfloor> < (of_int m :: real)" by linarith
    then have "\<lfloor>r\<rfloor> < m" by simp
    then show ?thesis by (simp add: round_half_even_def Let_def)
  qed
qed

lemma to_double_0: "to_double 0 = Num 0"
  using MIN_pos(3) by (simp add: to_double_def rhe_int [of 0, simplified])

lemma ulp_floor: "0 < x \<Longrightarrow> 2 ^ 52 * 2 powr (of_int \<lfloor>log 2 x\<rfloor> - 52) \<le> x"
proof -
  assume x: "0 < x"
  have "(2::real) ^ 52 * 2 powr (of_int \<lfloor>log 2 x\<rfloor> - 52) = 2 powr 52 * 2 powr (of_int \<lfloor>log 2 x\<rfloor> - 52)"
    by (simp add: powr_realpow [symmetric])
  also have "\<dots> = 2 powr (of_int \<lfloor>log 2 x\<rfloor>)"
    by (simp only: powr_add [symmetric]) simp
  also have "\<dots> \<le> 2 powr (log 2 x)"
    by (intro powr_mono) simp_all
  also have "\<dots> = x"
    using x by simp
  finally show ?thesis .
qed

lemma ulp_normal:
  assumes "MIN_NORMAL \<le> x"
  shows "2 ^ 52 * ulp x \<le> x"
proof -
  have x: "0 < x" using assms MIN_pos(2) by linarith
  from assms have "2 powr (- real 1022) \<le> x" by (simp only: MIN_NORMAL_powr)
  then have "- real 1022 \<le> log 2 x" using x by (simp only: le_log_iff) 
  then have "- 1022 \<le> \<lfloor>log 2 x\<rfloor>" by (simp add: le_floor_iff)
  then have "binade x = \<lfloor>log 2 x\<rfloor>" using x by (simp add: binade_def)
  with ulp_floor [OF x] show ?thesis by (simp add: ulp_def)
qed

lemma ulp_le:
  assumes "MIN_VALUE \<le> x"
  shows "ulp x \<le> x"
proof -
  have x: "0 < x" using assms MIN_pos(1) by linarith
  show ?thesis
  proof (cases "\<lfloor>log 2 x\<rfloor> \<le> - 1022")
    case True
    then have "binade x = - 1022" using x by (simp add: binade_def)
    then have "ulp x = 2 powr (- real 1074)" by (simp add: ulp_def)
    with assms show ?thesis by (simp only: MIN_VALUE_powr)
  next
    case False
    then have "binade x = \<lfloor>log 2 x\<rfloor>" using x by (simp add: binade_def)
    with ulp_floor [OF x] have "2 ^ 52 * ulp x \<le> x" by (simp add: ulp_def)
    moreover have "1 * ulp x \<le> 2 ^ 52 * ulp x"
      using ulp_pos [of x] by (intro mult_right_mono) simp_all
    ultimately show ?thesis by simp
  qed
qed

lemma to_double_Num:
  "to_double x = Num y \<Longrightarrow> y = of_int (round_half_even (x / ulp x)) * ulp x"
  by (auto simp: to_double_def Let_def split: if_splits)

lemma to_double_range:
  assumes "to_double x = Num y"
  shows "y = 0 \<or> MIN_VALUE \<le> \<bar>y\<bar>"
proof -
  let ?m = "round_half_even (x / ulp x)"
  note y = to_double_Num [OF assms]
  show ?thesis
  proof (cases "?m = 0")
    case True
    with y show ?thesis by simp
  next
    case False
    then have "1 \<le> \<bar>?m\<bar>" by linarith
    then have "1 \<le> \<bar>of_int ?m :: real\<bar>" by linarith
    then have "1 * ulp x \<le> \<bar>of_int ?m\<bar> * ulp x"
      using ulp_pos [of x] by (intro mult_right_mono) simp_all
    moreover have "\<bar>y\<bar> = \<bar>of_int ?m\<bar> * ulp x" using ulp_pos [of x] by (simp add: y abs_mult)
    ultimately show ?thesis using ulp_min [of x] by linarith
  qed
qed

lemma rounded_nonpos:
  assumes "x \<le> 0"
  shows "of_int (round_half_even (x / ulp x)) * ulp x \<le> 0"
proof -
  have "x / ulp x \<le> of_int 0" using assms ulp_pos [of x] by (simp add: divide_le_0_iff)
  then have "round_half_even (x / ulp x) \<le> 0" by (rule rhe_le)
  then show ?thesis using ulp_pos [of x] by (simp add: mult_le_0_iff)
qed

lemma to_double_nonpos:
  assumes "x \<le> 0"
  shows "to_double x = NegInfinity \<or> (\<exists>y. to_double x = Num y \<and> y \<le> 0)"
  using rounded_nonpos [OF assms] MIN_pos(3) by (auto simp: to_double_def Let_def)

lemma to_double_nonneg:
  assumes "0 \<le> x"
  shows "to_double x = Infinity \<or> (\<exists>y. to_double x = Num y \<and> 0 \<le> y)"
proof -
  have "of_int 0 \<le> x / ulp x" using assms ulp_pos [of x] by simp
  then have "0 \<le> round_half_even (x / ulp x)" by (rule rhe_ge)
  then have "0 \<le> of_int (round_half_even (x / ulp x)) * ulp x" using ulp_pos [of x] by simp
  then show ?thesis using MIN_pos(3) by (auto simp: to_double_def Let_def)
qed

lemma to_double_pos:
  assumes "MIN_VALUE \<le> x"
  shows "to_double x = Infinity \<or> (\<exists>y. to_double x = Num y \<and> 0 < y)"
proof -
  let ?m = "round_half_even (x / ulp x)"
  have "of_int 1 \<le> x / ulp x" using ulp_le [OF assms] ulp_pos [of x] by simp
  then have "1 \<le> ?m" by (rule rhe_ge)
  then have "0 < of_int ?m * ulp x" using ulp_pos [of x] by simp
  then show ?thesis using MIN_pos(3) by (auto simp: to_double_def Let_def)
qed

lemma to_double_normal:
  assumes "MIN_NORMAL \<le> x"
  shows "to_double x = Infinity \<or> (\<exists>y. to_double x = Num y \<and> MIN_NORMAL \<le> y)"
proof -
  let ?m = "round_half_even (x / ulp x)"
  have "of_int (2 ^ 52) \<le> x / ulp x" using ulp_normal [OF assms] ulp_pos [of x]
    by (simp add: pos_le_divide_eq)
  then have "2 ^ 52 \<le> ?m" by (rule rhe_ge)
  then have "(2 ^ 52 :: real) \<le> of_int ?m" using of_int_le_iff [of "2 ^ 52" ?m, where ?'a = real] by simp
  then have "2 ^ 52 * ulp x \<le> of_int ?m * ulp x"
    using ulp_pos [of x] by (intro mult_right_mono) simp_all
  moreover have "2 ^ 52 * MIN_VALUE \<le> 2 ^ 52 * ulp x"
    using ulp_min [of x] by (intro mult_left_mono) simp_all
  ultimately have "MIN_NORMAL \<le> of_int ?m * ulp x" by (simp only: MIN_NORMAL_eq)
  then show ?thesis using MIN_pos by (auto simp: to_double_def Let_def)
qed

lemma to_double_int:
  assumes "\<bar>n\<bar> < 2 ^ 53"
  shows "to_double (of_int n) = Num (of_int n)"
proof (cases "n = 0")
  case True
  then show ?thesis by (simp add: to_double_0)
next
  case False
  let ?x = "of_int n :: real"
  let ?e = "\<lfloor>log 2 \<bar>?x\<bar>\<rfloor>"
  from False have x1: "1 \<le> \<bar>?x\<bar>" by (simp flip: of_int_abs)
  from assms have x53: "\<bar>?x\<bar> < 2 ^ 53"
    using of_int_less_iff [of "\<bar>n\<bar>" "2 ^ 53", where ?'a = real] by simp
  have "0 \<le> log 2 \<bar>?x\<bar>" using x1 by simp
  then have e0: "0 \<le> ?e" by simp
  have "\<bar>?x\<bar> < 2 powr 53" using x53 by simp
  then have "log 2 \<bar>?x\<bar> < 53" using x1 by (subst log_less_iff) simp_all
  then have e52: "?e \<le> 52" by (simp add: floor_le_iff)
  define k where "k = nat (52 - ?e)"
  have b: "binade ?x = ?e" using e0 by (simp add: binade_def)
  have "real_of_int ?e - 52 = - real k" using e52 by (simp add: k_def)
  then have u: "ulp ?x = 1 / 2 ^ k" by (simp only: ulp_def b two_powr_neg)
  have "?x / ulp ?x = of_int (n * 2 ^ k)" by (simp add: u)
  then have "round_half_even (?x / ulp ?x) = n * 2 ^ k" by (simp only: rhe_int)
  then have y: "of_int (round_half_even (?x / ulp ?x)) * ulp ?x = ?x" by (simp add: u)
  have "(2::real) ^ 53 \<le> 2 ^ 1024" by (intro power_increasing) simp_all
  with x53 have "\<bar>?x\<bar> < OVERFLOW" unfolding OVERFLOW_def by linarith
  then show ?thesis unfolding to_double_def Let_def y by (auto simp: abs_if split: if_splits)
qed

lemma to_double_numeral:
  "numeral k < (2 ^ 53 :: int) \<Longrightarrow> to_double (numeral k) = Num (numeral k)"
  "numeral k < (2 ^ 53 :: int) \<Longrightarrow> to_double (- numeral k) = Num (- numeral k)"
  "to_double 1 = Num 1"
  "to_double (- 1) = Num (- 1)"
  using to_double_int [of "numeral k"] to_double_int [of "- numeral k"] to_double_int [of 1]
    to_double_int [of "- 1"]
  by simp_all

lemma to_double_overflow:
  assumes "OVERFLOW \<le> x"
  shows "to_double x = Infinity"
proof -
  let ?m = "round_half_even (x / ulp x)"
  have x: "0 < x" using assms MIN_pos(3) by linarith
  have "2 powr 1024 \<le> x" using assms by (simp add: OVERFLOW_def)
  then have "1024 \<le> log 2 x" using x by (simp only: le_log_iff)
  then have e: "1024 \<le> \<lfloor>log 2 x\<rfloor>" by (simp add: le_floor_iff)
  then have b: "binade x = \<lfloor>log 2 x\<rfloor>" using x by (simp add: binade_def)
  have "(2::real) ^ 52 * 2 powr (of_int \<lfloor>log 2 x\<rfloor> - 52) = 2 powr 52 * 2 powr (of_int \<lfloor>log 2 x\<rfloor> - 52)"
    by (simp add: powr_realpow [symmetric])
  also have "\<dots> = 2 powr (of_int \<lfloor>log 2 x\<rfloor>)"
    by (simp only: powr_add [symmetric]) simp
  finally have u: "2 ^ 52 * ulp x = 2 powr (of_int \<lfloor>log 2 x\<rfloor>)" by (simp add: ulp_def b)
  have o: "OVERFLOW = 2 powr 1024" by (simp add: OVERFLOW_def)
  have big: "OVERFLOW \<le> 2 ^ 52 * ulp x"
    unfolding o u using e by (intro powr_mono) simp_all
  have "MIN_NORMAL \<le> 1" by (simp add: MIN_NORMAL_def)
  moreover have "1 \<le> OVERFLOW" by (simp add: OVERFLOW_def)
  ultimately have "MIN_NORMAL \<le> x" using assms by linarith
  then have "of_int (2 ^ 52) \<le> x / ulp x" using ulp_normal ulp_pos [of x]
    by (simp add: pos_le_divide_eq)
  then have "2 ^ 52 \<le> ?m" by (rule rhe_ge)
  then have "(2 ^ 52 :: real) \<le> of_int ?m" using of_int_le_iff [of "2 ^ 52" ?m, where ?'a = real] by simp
  then have "2 ^ 52 * ulp x \<le> of_int ?m * ulp x"
    using ulp_pos [of x] by (intro mult_right_mono) simp_all
  with big have "OVERFLOW \<le> of_int ?m * ulp x" by linarith
  then show ?thesis by (simp add: to_double_def Let_def)
qed

lemma to_double_underflow:
  assumes "0 \<le> x" and "2 * x < MIN_VALUE"
  shows "to_double x = Num 0"
proof (cases "x = 0")
  case True
  then show ?thesis by (simp add: to_double_0)
next
  case False
  with assms have x: "0 < x" by simp
  have "MIN_VALUE \<le> MIN_NORMAL" using MIN_pos(1) by (simp add: MIN_NORMAL_eq)
  with assms(2) x have "x < 2 powr (- real 1022)" by (simp only: MIN_NORMAL_powr [symmetric])
  then have "log 2 x < - real 1022" using x by (simp only: log_less_iff) 
  then have "\<lfloor>log 2 x\<rfloor> \<le> - 1022" by (simp add: floor_le_iff)
  then have "binade x = - 1022" using x by (simp add: binade_def)
  then have "ulp x = 2 powr (- real 1074)" by (simp add: ulp_def)
  then have u: "ulp x = MIN_VALUE" by (simp only: MIN_VALUE_powr)
  let ?r = "x / ulp x"
  have r: "0 \<le> ?r" "?r < 1 / 2" using x assms(2) MIN_pos(1) by (simp_all add: u field_simps)
  then have "?r < 1" by linarith
  with r(1) have "\<lfloor>?r\<rfloor> = 0" by (simp only: floor_eq_iff) simp
  with r have "round_half_even ?r = 0" by (simp add: round_half_even_def Let_def)
  then show ?thesis using MIN_pos(3) by (simp add: to_double_def Let_def)
qed

subsection \<open>A computation\<close>

lemma binade_eq:
  assumes "2 powr of_int e \<le> \<bar>x\<bar>" and "\<bar>x\<bar> < 2 powr (of_int e + 1)" and "- 1022 \<le> e"
  shows "binade x = e"
proof -
  have x: "0 < \<bar>x\<bar>" using assms(1) by (rule less_le_trans [rotated]) simp
  have "of_int e \<le> log 2 \<bar>x\<bar>" using assms(1) x by (simp only: le_log_iff)
  moreover have "log 2 \<bar>x\<bar> < of_int e + 1" using assms(2) x by (simp only: log_less_iff)
  ultimately have "\<lfloor>log 2 \<bar>x\<bar>\<rfloor> = e" by (simp add: floor_eq_iff)
  with assms(3) show ?thesis by (simp add: binade_def)
qed

lemma ulp_half_to_one:
  assumes "1 / 2 \<le> \<bar>x\<bar>" and "\<bar>x\<bar> < 1"
  shows "ulp x = 1 / 2 ^ 53"
proof -
  have "binade x = - 1"
    using assms by (intro binade_eq) (simp_all add: powr_minus_divide)
  then have "ulp x = 2 powr (- real 53)" by (simp add: ulp_def)
  then show ?thesis by (simp only: two_powr_neg)
qed

lemma ulp_quarter_to_half:
  assumes "1 / 4 \<le> \<bar>x\<bar>" and "\<bar>x\<bar> < 1 / 2"
  shows "ulp x = 1 / 2 ^ 54"
proof -
  have "(2::real) powr of_int (- 2) = 1 / 4" "(2::real) powr (of_int (- 2) + 1) = 1 / 2"
    by (simp_all add: powr_minus_divide)
  with assms have "binade x = - 2"
    by (intro binade_eq) simp_all
  then have "ulp x = 2 powr (- real 54)" by (simp add: ulp_def)
  then show ?thesis by (simp only: two_powr_neg)
qed

lemma rhe_frac:
  assumes "0 \<le> d" and "d < 1"
  shows "round_half_even (of_int n + d) =
         (if d < 1 / 2 then n else if 1 / 2 < d then n + 1 else if even n then n else n + 1)"
proof -
  have "\<lfloor>of_int n + d\<rfloor> = n" using assms by (simp add: floor_eq_iff)
  then show ?thesis by (simp add: round_half_even_def Let_def)
qed

text \<open>
  With the doubles written \<open>0.1\<close> and \<open>0.2\<close>, the sum \<open>0.1 + 0.2\<close> is the double
  \<open>0.30000000000000004\<close>: the exact sum lies half way between two doubles, and the one
  with the even significand is taken.
\<close>

lemma to_double_example:
  "js_add (Num (3602879701896397 / 2 ^ 55)) (Num (3602879701896397 / 2 ^ 54)) =
   Num (5404319552844596 / 2 ^ 54)"
proof -
  let ?x = "3602879701896397 / 2 ^ 55 + 3602879701896397 / 2 ^ 54 :: real"
  have u: "ulp ?x = 1 / 2 ^ 54" by (rule ulp_quarter_to_half) simp_all
  have "?x / ulp ?x = of_int 5404319552844595 + 1 / 2" unfolding u by simp
  then have "round_half_even (?x / ulp ?x) = 5404319552844596"
    by (simp only: rhe_frac) simp
  then show ?thesis
    unfolding js_add.simps to_double_def Let_def
    by (simp only: u) (simp add: OVERFLOW_def)
qed


subsection \<open>Properties of the operations\<close>

lemma js_add_Num: "js_add a b = Num s \<Longrightarrow> \<exists>x. to_double x = Num s"
  by (cases a; cases b) (auto split: if_splits)


lemma js_sub_self: "js_abs (js_sub a a) = (if is_finite a then Num 0 else NaN)"
  by (cases a) (simp_all add: js_sub_def to_double_0)

lemma js_max_self: "js_max a a = a"
  by (cases a) simp_all

lemma sqrt_MIN_VALUE: "MIN_NORMAL \<le> sqrt MIN_VALUE"
proof (rule real_le_rsqrt)
  have "MIN_NORMAL\<^sup>2 = 1 / 2 ^ 2044" by (simp add: MIN_NORMAL_def power_divide)
  also have "\<dots> \<le> 1 / 2 ^ 1074"
    by (intro divide_left_mono power_increasing mult_pos_pos zero_less_power) simp_all
  finally show "MIN_NORMAL\<^sup>2 \<le> MIN_VALUE" by (simp only: MIN_VALUE_def)
qed

text \<open>
  Half of a font height is positive exactly when the font height is: the square root of
  a positive double is a normal double, and its half is not below \<open>MIN_VALUE\<close>.
\<close>

lemma half_fontSize_pos:
  assumes "js_sqrt (js_add a b) = Num v"
  shows "js_lt (Num 0) (to_double (v * (1 / 2))) = (0 < v)"
proof (cases "0 < v")
  case False
  then have "v * (1 / 2) \<le> 0" by simp
  from to_double_nonpos [OF this] False show ?thesis by auto
next
  case True
  from assms obtain sv where s: "js_add a b = Num sv" and sv: "0 \<le> sv"
    and v: "to_double (sqrt sv) = Num v"
    by (cases "js_add a b") (auto split: if_splits)
  have "0 < sqrt sv"
  proof (rule ccontr)
    assume "\<not> 0 < sqrt sv"
    then have "sqrt sv \<le> 0" by simp
    from to_double_nonpos [OF this] v True show False by auto
  qed
  then have "0 < sv" by simp
  moreover from js_add_Num [OF s] obtain x where "to_double x = Num sv" ..
  then have "sv = 0 \<or> MIN_VALUE \<le> \<bar>sv\<bar>" by (rule to_double_range)
  ultimately have "MIN_VALUE \<le> sv" by auto
  then have "sqrt MIN_VALUE \<le> sqrt sv" by simp
  with sqrt_MIN_VALUE have "MIN_NORMAL \<le> sqrt sv" by linarith
  from to_double_normal [OF this] v have n: "MIN_NORMAL \<le> v" by auto
  have "MIN_VALUE \<le> MIN_NORMAL * (1 / 2)" using MIN_pos(1) by (simp add: MIN_NORMAL_eq)
  also have "\<dots> \<le> v * (1 / 2)" using n by simp
  finally have "MIN_VALUE \<le> v * (1 / 2)" .
  from to_double_pos [OF this] True show ?thesis by auto
qed

subsection \<open>Properties of buildCharMap\<close>

lemma length_item_chars: "length (item_chars util vt item) = length (item_str item)"
  by (simp add: item_chars_def Let_def split: prod.splits)

lemma buildCharMap_loop_length:
  "length (fst acc) = length (snd acc) \<Longrightarrow>
   length (fst (buildCharMap_loop util vt items acc)) = length (snd (buildCharMap_loop util vt items acc))"
proof (induction items arbitrary: acc)
  case Nil
  then show ?case by simp
next
  case (Cons item items)
  obtain ft cm where acc: "acc = (ft, cm)" by (cases acc)
  with Cons.prems have eq: "length ft = length cm" by simp
  show ?case
    unfolding acc
    by (simp add: Cons.IH eq length_item_chars)
qed

text \<open>
  C1. For every list of text-content items, and whichever transform function is in use,
  the concatenated text and the character map that \<open>buildCharMap\<close> returns have the same
  length. Items with an empty string are included: the list is arbitrary.
\<close>

theorem buildCharMap_lengths_equal:
  "length (fst (buildCharMap util vt items)) = length (snd (buildCharMap util vt items))"
  unfolding buildCharMap_def by (rule buildCharMap_loop_length) simp

lemma item_chars_not_None: "e \<in> set (item_chars util vt item) \<Longrightarrow> e \<noteq> None"
  by (auto simp: item_chars_def Let_def split: prod.splits)

lemma buildCharMap_loop_eq:
  "buildCharMap_loop util vt items (ft, cm) =
     (ft @ concat (map (\<lambda>it. item_str it @ '' '') items),
      cm @ concat (map (\<lambda>it. item_chars util vt it @ [None]) items))"
proof (induction items arbitrary: ft cm)
  case Nil
  then show ?case by simp
next
  case (Cons item items)
  have empty: "item_str item = [] \<Longrightarrow> item_chars util vt item = []"
    using length_item_chars [of util vt item] by simp
  show ?case
    by (simp add: Cons.IH empty)
qed

lemma buildCharMap_eq:
  "buildCharMap util vt items =
     (concat (map (\<lambda>it. item_str it @ '' '') items),
      concat (map (\<lambda>it. item_chars util vt it @ [None]) items))"
  by (simp add: buildCharMap_def buildCharMap_loop_eq)

lemma null_marks_item:
  "map (\<lambda>e. e = None) (item_chars util vt it) = replicate (length (item_str it)) False"
proof -
  have "\<forall>e \<in> set (item_chars util vt it). (e = None) = False"
    using item_chars_not_None by blast
  then have "map (\<lambda>e. e = None) (item_chars util vt it) = map (\<lambda>e. False) (item_chars util vt it)"
    by (intro map_cong) auto
  also have "\<dots> = replicate (length (item_chars util vt it)) False"
    by (simp add: map_replicate_const)
  finally show ?thesis by (simp add: length_item_chars)
qed

text \<open>
  C8. For every list of items, the concatenated text is the concatenation of the item
  texts, each followed by the single separator space that marks the run boundary; and the
  character map is \<open>null\<close> exactly at the separator positions: read as a list of
  "is null" flags, it is, run by run, one \<open>False\<close> for each character of the run and
  one \<open>True\<close> for the separator after it.
\<close>

theorem buildCharMap_text_is_runs_with_separators:
  "fst (buildCharMap util vt items) = concat (map (\<lambda>it. item_str it @ '' '') items) \<and>
   map (\<lambda>e. e = None) (snd (buildCharMap util vt items)) =
     concat (map (\<lambda>it. replicate (length (item_str it)) False @ [True]) items)"
proof -
  have "map (\<lambda>e. e = None) (concat (map (\<lambda>it. item_chars util vt it @ [None]) items)) =
        concat (map (\<lambda>it. replicate (length (item_str it)) False @ [True]) items)"
    by (induction items) (simp_all add: null_marks_item)
  then show ?thesis by (simp add: buildCharMap_eq)
qed

subsection \<open>Properties of getRectsForRange\<close>

lemma getRects_loop_walk:
  "(case getRects_loop cm i e rects cur of
      (rs, Some r) \<Rightarrow> rs @ [r] | (rs, None) \<Rightarrow> rs) =
   rects @ walk same_line (char_span cm i e) cur"
proof (induction cm i e rects cur rule: getRects_loop.induct)
  case (1 cm i e rects cur)
  show ?case
  proof (cases "i < e \<and> i < length cm")
    case False
    then have "char_span cm i e = []" by (auto simp: char_span_def)
    moreover have "getRects_loop cm i e rects cur = (rects, cur)"
      by (subst getRects_loop.simps) (simp only: False if_False)
    ultimately show ?thesis
      by (cases cur) simp_all
  next
    case True
    then have "i < length (take e cm)" and "take e cm ! i = cm ! i"
      by simp_all
    then have sp: "char_span cm i e = cm ! i # char_span cm (i + 1) e"
      using Cons_nth_drop_Suc [of i "take e cm"] by (simp add: char_span_def)
    show ?thesis
    proof (cases "cm ! i")
      case None
      show ?thesis
      proof (cases cur)
        case N: None
        show ?thesis
          by (subst getRects_loop.simps) (use "1.IH" True None N sp in simp)
      next
        case (Some r)
        show ?thesis
          by (subst getRects_loop.simps) (use "1.IH" True None Some sp in simp)
      qed
    next
      case (Some p)
      show ?thesis
      proof (cases cur)
        case None
        show ?thesis
          by (subst getRects_loop.simps) (use "1.IH" True Some None sp in simp)
      next
        case S: (Some r)
        show ?thesis
        proof (cases "same_line p r")
          case T: True
          show ?thesis
            by (subst getRects_loop.simps) (use "1.IH" True Some S T sp in simp)
        next
          case F: False
          show ?thesis
            by (subst getRects_loop.simps) (use "1.IH" True Some S F sp in simp)
        qed
      qed
    qed
  qed
qed

lemma getRectsForRange_walk:
  "getRectsForRange cm s e = walk same_line (char_span cm s e) None"
  using getRects_loop_walk [of cm s e "[]" None]
  by (simp add: getRectsForRange_def)

text \<open>
  The comparison is made on rounded values. With an entry of top \<open>0.7\<close> and height
  \<open>1.2\<close> against an open rectangle of top \<open>0.1\<close> (the doubles so written), the
  difference of the tops rounds up to half the height, and the comparison of the source
  fails although the exact difference is smaller than half the height.
\<close>

lemma same_line_example:
  "\<not> same_line
      \<lparr>pos_x = Num 0, pos_y = Num (6305039478318694 / 2 ^ 53), pos_w = Num 1,
       pos_h = Num (5404319552844595 / 2 ^ 52)\<rparr>
      \<lparr>rect_x = Num 0, rect_y = Num (3602879701896397 / 2 ^ 55), rect_width = Num 1,
       rect_height = Num 1\<rparr> \<and>
   \<bar>6305039478318694 / 2 ^ 53 - 3602879701896397 / 2 ^ 55\<bar> < (5404319552844595 / 2 ^ 52 / 2 :: real)"
proof -
  let ?d = "6305039478318694 / 2 ^ 53 + - (3602879701896397 / 2 ^ 55) :: real"
  let ?h = "5404319552844595 / 2 ^ 52 * (1 / 2) :: real"
  have ud: "ulp ?d = 1 / 2 ^ 53" by (rule ulp_half_to_one) simp_all
  have "?d / ulp ?d = of_int 5404319552844594 + 3 / 4" unfolding ud by simp
  then have "round_half_even (?d / ulp ?d) = 5404319552844595"
    by (simp only: rhe_frac) simp
  then have d: "to_double ?d = Num (5404319552844595 / 2 ^ 53)"
    unfolding to_double_def Let_def by (simp only: ud) (simp add: OVERFLOW_def)
  have uh: "ulp ?h = 1 / 2 ^ 53" by (rule ulp_half_to_one) simp_all
  have "?h / ulp ?h = of_int 5404319552844595" unfolding uh by simp
  then have "round_half_even (?h / ulp ?h) = 5404319552844595"
    by (simp only: rhe_int)
  then have h: "to_double ?h = Num (5404319552844595 / 2 ^ 53)"
    unfolding to_double_def Let_def by (simp only: uh) (simp add: OVERFLOW_def)
  show ?thesis
    unfolding same_line_def js_sub_def by (simp only: pos.simps rect.simps js_neg.simps js_add.simps js_mul.simps d h) simp
qed

lemma walk_split: "walk T (es @ None # R) cur = walk T es cur @ walk T R None"
proof (induction es arbitrary: cur)
  case Nil
  then show ?case by (cases cur) simp_all
next
  case (Cons e es)
  then show ?case by (cases e; cases cur) simp_all
qed

lemma char_span_block:
  "walk T (char_span (A @ None # R) s e) None =
   walk T (char_span A s e) None @ walk T (char_span R (s - Suc (length A)) (e - Suc (length A))) None"
proof (cases "e \<le> length A")
  case True
  then show ?thesis by (simp add: char_span_def)
next
  case False
  then have e: "length A < e" by simp
  show ?thesis
  proof (cases "s \<le> length A")
    case True
    with e have "char_span (A @ None # R) s e =
        char_span A s e @ None # char_span R (s - Suc (length A)) (e - Suc (length A))"
      by (simp add: char_span_def take_Cons')
    then show ?thesis by (simp only: walk_split)
  next
    case False
    with e have "char_span (A @ None # R) s e = char_span R (s - Suc (length A)) (e - Suc (length A))"
      and "char_span A s e = []"
      by (simp_all add: char_span_def take_Cons' drop_Cons')
    then show ?thesis by simp
  qed
qed

subsection \<open>The walk within one glyph run\<close>

lemma walk_run_split:
  assumes "\<forall>p \<in> set ps. \<forall>r. rect_y r = y0 \<and> rect_height r = h0 \<longrightarrow> \<not> T p r"
    and "\<forall>p \<in> set ps. pos_y p = y0 \<and> pos_h p = h0"
    and "rect_y r = y0" and "rect_height r = h0"
  shows "walk T (map Some ps) (Some r) = r # map open_rect ps"
  using assms
proof (induction ps arbitrary: r)
  case Nil
  then show ?case by simp
next
  case (Cons p ps)
  then have "\<not> T p r" by simp
  moreover have "rect_y (open_rect p) = y0" "rect_height (open_rect p) = h0"
    using Cons.prems(2) by (simp_all add: open_rect_def)
  ultimately show ?case using Cons.IH [of "open_rect p"] Cons.prems(1,2) by simp
qed

lemma walk_run_join:
  assumes "\<forall>p \<in> set ps. \<forall>r. rect_y r = y0 \<and> rect_height r = h0 \<longrightarrow> T p r"
    and "\<forall>p \<in> set ps. pos_y p = y0 \<and> pos_h p = h0"
    and "rect_y r = y0" and "rect_height r = h0"
  shows "walk T (map Some ps) (Some r) =
         [if ps = [] then r
          else r\<lparr>rect_width := js_sub (js_add (pos_x (last ps)) (pos_w (last ps))) (rect_x r)\<rparr>]"
  using assms
proof (induction ps arbitrary: r)
  case Nil
  then show ?case by simp
next
  case (Cons p ps)
  let ?r = "extend_rect r p"
  have T: "T p r" using Cons.prems by simp
  have e: "?r = r\<lparr>rect_width := js_sub (js_add (pos_x p) (pos_w p)) (rect_x r)\<rparr>"
    using Cons.prems(2,4) by (simp add: extend_rect_def Let_def js_max_self)
  then have "rect_y ?r = y0" "rect_height ?r = h0" "rect_x ?r = rect_x r"
    using Cons.prems(3,4) by simp_all
  with Cons.IH [of ?r] Cons.prems(1,2)
  have "walk T (map Some ps) (Some ?r) =
      [if ps = [] then ?r
       else ?r\<lparr>rect_width := js_sub (js_add (pos_x (last ps)) (pos_w (last ps))) (rect_x r)\<rparr>]"
    by simp
  with T e show ?case by simp
qed

lemma run_pos_eq:
  assumes "i < length (item_str item)"
  shows "item_chars util vt item ! i = Some (run_pos util vt item i)"
    and "pos_y (run_pos util vt item i) = item_top util vt item"
    and "pos_h (run_pos util vt item i) = item_fontSize util vt item"
  using assms
  by (auto simp: run_pos_def item_chars_def item_top_def item_fontSize_def Let_def split: prod.splits)

lemma run_span:
  "char_span (item_chars util vt item) s e =
   map (\<lambda>i. Some (run_pos util vt item i)) [s ..< min e (length (item_str item))]"
proof (rule nth_equalityI)
  show "length (char_span (item_chars util vt item) s e) =
        length (map (\<lambda>i. Some (run_pos util vt item i)) [s ..< min e (length (item_str item))])"
    by (simp add: char_span_def length_item_chars)
next
  fix i
  assume "i < length (char_span (item_chars util vt item) s e)"
  then have i: "s + i < length (item_str item)" "s + i < e"
    by (simp_all add: char_span_def length_item_chars)
  then show "char_span (item_chars util vt item) s e ! i =
        map (\<lambda>i. Some (run_pos util vt item i)) [s ..< min e (length (item_str item))] ! i"
    by (simp add: char_span_def length_item_chars run_pos_eq(1))
qed

text \<open>
  Against a rectangle opened in the same run, the test of the source and the test of the
  specification both say whether the run is regular.
\<close>

lemma same_line_run:
  assumes "pos_y p = item_top util vt item" and "pos_h p = item_fontSize util vt item"
    and "rect_y r = item_top util vt item"
  shows "same_line p r = regular_run util vt item"
proof -
  obtain t0 t1 t2 t3 t4 t5 where tx: "item_tx util vt (item_transform item) = (t0, t1, t2, t3, t4, t5)"
    by (cases "item_tx util vt (item_transform item)")
  define h where "h = js_sqrt (js_add (js_mul t2 t2) (js_mul t3 t3))"
  have fs: "item_fontSize util vt item = h" and top: "item_top util vt item = js_sub t5 h"
    by (simp_all add: item_fontSize_def item_top_def tx h_def)
  have sl: "same_line p r =
      js_lt (if is_finite (js_sub t5 h) then Num 0 else NaN) (js_mul h (Num (1 / 2)))"
    using assms by (simp add: same_line_def fs top js_sub_self)
  show ?thesis
  proof (cases "is_finite (js_sub t5 h)")
    case False
    then show ?thesis by (simp add: sl regular_run_def top)
  next
    case True
    show ?thesis
    proof (cases h)
      case (Num v)
      then have "js_sqrt (js_add (js_mul t2 t2) (js_mul t3 t3)) = Num v" by (simp add: h_def)
      from half_fontSize_pos [OF this] True Num show ?thesis
        by (simp add: sl regular_run_def top fs)
    qed (use True in \<open>simp_all add: sl regular_run_def top fs signed_inf_def\<close>)
  qed
qed


lemma walk_run_k:
  assumes T: "\<And>p r. pos_y p = item_top util vt item \<Longrightarrow> pos_h p = item_fontSize util vt item \<Longrightarrow>
      rect_y r = item_top util vt item \<Longrightarrow> rect_height r = item_fontSize util vt item \<Longrightarrow>
      T p r = regular_run util vt item"
    and sk: "s < k" and kn: "k \<le> length (item_str item)"
  shows "walk T (map (\<lambda>i. Some (run_pos util vt item i)) [s ..< k]) None =
         (if regular_run util vt item then [run_rect util vt item s k]
          else map (\<lambda>i. open_rect (run_pos util vt item i)) [s ..< k])"
proof -
  let ?P = "run_pos util vt item"
  let ?ps = "map ?P [Suc s ..< k]"
  have sp: "map (\<lambda>i. Some (?P i)) [s ..< k] = Some (?P s) # map Some ?ps"
    using sk by (simp add: upt_conv_Cons comp_def)
  have s: "pos_y (?P s) = item_top util vt item" "pos_h (?P s) = item_fontSize util vt item"
    using sk kn by (simp_all add: run_pos_eq)
  have ps: "\<forall>p \<in> set ?ps. pos_y p = item_top util vt item \<and> pos_h p = item_fontSize util vt item"
    using kn by (auto simp: run_pos_eq)
  have r0: "rect_y (open_rect (?P s)) = item_top util vt item"
      "rect_height (open_rect (?P s)) = item_fontSize util vt item"
    using s by (simp_all add: open_rect_def)
  show ?thesis
  proof (cases "regular_run util vt item")
    case False
    have "\<forall>p \<in> set ?ps. \<forall>r. rect_y r = item_top util vt item \<and> rect_height r = item_fontSize util vt item \<longrightarrow> \<not> T p r"
      using ps T False by blast
    from walk_run_split [OF this ps r0]
    have "walk T (map Some ?ps) (Some (open_rect (?P s))) = open_rect (?P s) # map open_rect ?ps" .
    with sk False show ?thesis by (simp add: sp upt_conv_Cons comp_def)
  next
    case reg: True
    have "\<forall>p \<in> set ?ps. \<forall>r. rect_y r = item_top util vt item \<and> rect_height r = item_fontSize util vt item \<longrightarrow> T p r"
      using ps T reg by blast
    note w = walk_run_join [OF this ps r0]
    show ?thesis
    proof (cases "k = Suc s")
      case k: True
      have pe: "?ps = []" unfolding k by simp
      have "walk T (map Some ?ps) (Some (open_rect (?P s))) = [open_rect (?P s)]"
        unfolding pe by simp
      moreover have "open_rect (?P s) = run_rect util vt item s k"
        using s by (simp add: open_rect_def run_rect_def Let_def k)
      ultimately show ?thesis using reg by (simp add: sp)
    next
      case k: False
      with sk have ne: "Suc s < k" by simp
      then have "?ps \<noteq> []" and "last ?ps = ?P (k - 1)"
        by (simp_all add: last_map)
      with w have "walk T (map Some ?ps) (Some (open_rect (?P s))) =
          [(open_rect (?P s))\<lparr>rect_width :=
              js_sub (js_add (pos_x (?P (k - 1))) (pos_w (?P (k - 1)))) (rect_x (open_rect (?P s)))\<rparr>]"
        by simp
      moreover have "(open_rect (?P s))\<lparr>rect_width :=
              js_sub (js_add (pos_x (?P (k - 1))) (pos_w (?P (k - 1)))) (rect_x (open_rect (?P s)))\<rparr> =
          run_rect util vt item s k"
        using s k by (simp add: open_rect_def run_rect_def Let_def)
      ultimately show ?thesis using reg by (simp add: sp)
    qed
  qed
qed

lemma walk_run_k2:
  assumes T: "\<And>p r. pos_y p = item_top util vt item \<Longrightarrow> pos_h p = item_fontSize util vt item \<Longrightarrow>
      rect_y r = item_top util vt item \<Longrightarrow> rect_height r = item_fontSize util vt item \<Longrightarrow>
      T p r = regular_run util vt item"
    and kn: "k \<le> length (item_str item)"
  shows "walk T (map (\<lambda>i. Some (run_pos util vt item i)) [s ..< k]) None =
         (if s < k then
            (if regular_run util vt item then [run_rect util vt item s k]
             else map (\<lambda>i. open_rect (run_pos util vt item i)) [s ..< k])
          else [])"
proof (cases "s < k")
  case True
  have "walk T (map (\<lambda>i. Some (run_pos util vt item i)) [s ..< k]) None =
         (if regular_run util vt item then [run_rect util vt item s k]
          else map (\<lambda>i. open_rect (run_pos util vt item i)) [s ..< k])"
    using T True kn by (rule walk_run_k)
  with True show ?thesis by (simp only: if_True)
next
  case False
  then have "[s ..< k] = []" by simp
  with False show ?thesis by (simp only: if_False list.map walk.simps)
qed

lemma walk_run:
  assumes T: "\<And>p r. pos_y p = item_top util vt item \<Longrightarrow> pos_h p = item_fontSize util vt item \<Longrightarrow>
      rect_y r = item_top util vt item \<Longrightarrow> rect_height r = item_fontSize util vt item \<Longrightarrow>
      T p r = regular_run util vt item"
  shows "walk T (char_span (item_chars util vt item) s e) None =
         (if s < min e (length (item_str item)) then
            (if regular_run util vt item then [run_rect util vt item s (min e (length (item_str item)))]
             else map (\<lambda>i. open_rect (run_pos util vt item i)) [s ..< min e (length (item_str item))])
          else [])"
proof -
  have kn: "min e (length (item_str item)) \<le> length (item_str item)" by (rule min.cobounded2)
  show ?thesis
    unfolding run_span using T kn by (rule walk_run_k2)
qed

lemma walk_built:
  assumes T: "\<And>item p r. pos_y p = item_top util vt item \<Longrightarrow> pos_h p = item_fontSize util vt item \<Longrightarrow>
      rect_y r = item_top util vt item \<Longrightarrow> rect_height r = item_fontSize util vt item \<Longrightarrow>
      T p r = regular_run util vt item"
  shows "walk T (char_span (snd (buildCharMap util vt items)) s e) None = run_rects util vt items s e"
proof (induction items arbitrary: s e)
  case Nil
  then show ?case by (simp add: buildCharMap_eq char_span_def)
next
  case (Cons item items)
  have "snd (buildCharMap util vt (item # items)) =
      item_chars util vt item @ None # snd (buildCharMap util vt items)"
    by (simp add: buildCharMap_eq)
  then show ?case
    by (simp only: char_span_block walk_run [of util vt item T, OF T] Cons.IH
        length_item_chars run_rects.simps Let_def)
qed

lemma getRectsForRange_built:
  "getRectsForRange (snd (buildCharMap util vt items)) s e = run_rects util vt items s e"
  unfolding getRectsForRange_walk
  by (rule walk_built) (rule same_line_run)




text \<open>
  The source compares the tops, \<open>Math.abs(pos.y - currentRect.y) < pos.h * 0.5\<close>. Where
  an open rectangle meets an entry of another height the two tests can differ; no map of
  \<open>buildCharMap\<close> has such a place, since every run ends with a \<open>null\<close> entry.
\<close>

lemma tops_and_centres:
  "same_line_centres \<lparr>pos_x = Num 10, pos_y = Num 6, pos_w = Num 10, pos_h = Num 10\<rparr>
     (open_rect \<lparr>pos_x = Num 0, pos_y = Num 0, pos_w = Num 10, pos_h = Num 20\<rparr>) \<and>
   \<not> same_line \<lparr>pos_x = Num 10, pos_y = Num 6, pos_w = Num 10, pos_h = Num 10\<rparr>
     (open_rect \<lparr>pos_x = Num 0, pos_y = Num 0, pos_w = Num 10, pos_h = Num 20\<rparr>)"
  by (simp add: same_line_centres_def same_line_def open_rect_def js_sub_def to_double_numeral)

subsection \<open>One rectangle for each glyph run\<close>

lemma run_rects_skip:
  "run_rects util vt (pre @ rest) (run_offset pre + s) (run_offset pre + e) = run_rects util vt rest s e"
proof (induction pre)
  case Nil
  then show ?case by (simp add: run_offset_def)
next
  case (Cons it pre)
  have o: "run_offset (it # pre) = Suc (length (item_str it)) + run_offset pre"
    by (simp add: run_offset_def)
  have "\<not> run_offset (it # pre) + s < min (run_offset (it # pre) + e) (length (item_str it))"
    unfolding o by simp
  moreover have "run_offset (it # pre) + s - Suc (length (item_str it)) = run_offset pre + s"
    "run_offset (it # pre) + e - Suc (length (item_str it)) = run_offset pre + e"
    unfolding o by simp_all
  ultimately show ?case using Cons.IH by (simp add: Let_def)
qed

lemma run_rects_end: "run_rects util vt items s 0 = []"
  by (induction items arbitrary: s) (simp_all add: Let_def)

lemma run_rects_one:
  assumes "regular_run util vt a" and "i < k" and "k \<le> length (item_str a)"
  shows "run_rects util vt (a # post) i k = [run_rect util vt a i k]"
proof -
  have m: "min k (length (item_str a)) = k" and z: "k - Suc (length (item_str a)) = 0"
    using assms(3) by simp_all
  have "run_rects util vt (a # post) i k =
      [run_rect util vt a i k] @ run_rects util vt post (i - Suc (length (item_str a))) 0"
    using assms(1,2) by (simp only: run_rects.simps Let_def m z if_True)
  then show ?thesis by (simp only: run_rects_end append_Nil2)
qed

lemma run_rects_two:
  assumes "regular_run util vt a" and "regular_run util vt b"
    and "i < length (item_str a)" and "0 < j" and "j \<le> length (item_str b)"
  shows "run_rects util vt (a # b # post) i (length (item_str a) + 1 + j) =
         [run_rect util vt a i (length (item_str a)), run_rect util vt b 0 j]"
proof -
  have m: "min (length (item_str a) + 1 + j) (length (item_str a)) = length (item_str a)"
    and d: "length (item_str a) + 1 + j - Suc (length (item_str a)) = j"
    and z: "i - Suc (length (item_str a)) = 0"
    using assms(3) by simp_all
  have "run_rects util vt (a # b # post) i (length (item_str a) + 1 + j) =
      [run_rect util vt a i (length (item_str a))] @ run_rects util vt (b # post) 0 j"
    using assms(1,3) by (simp only: run_rects.simps(2) [of util vt a] Let_def m d z if_True)
  also have "run_rects util vt (b # post) 0 j = [run_rect util vt b 0 j]"
    using assms(2,4,5) by (rule run_rects_one)
  finally show ?thesis by simp
qed

text \<open>
  C2 (as amended). Over the character map that \<open>buildCharMap\<close> builds from any item
  list, the rectangles of a span are those of \<open>run_rects\<close>: one for every glyph run of
  which the span has characters, from its first character in the span to its last, when
  the run is regular (its top is finite and its height positive), and one for every
  character otherwise. So a span within one regular run, wherever the run is in the list,
  yields exactly the one rectangle of that part of the run; and a span that starts in one
  regular run and ends in the next yields exactly two rectangles, one for each run,
  whether the two runs lie on the same line or not: the separator entry between the runs
  closes the open rectangle.
\<close>

theorem rects_one_per_run:
  "getRectsForRange (snd (buildCharMap util vt items)) s e = run_rects util vt items s e \<and>
   (regular_run util vt a \<and> i < k \<and> k \<le> length (item_str a) \<longrightarrow>
      getRectsForRange (snd (buildCharMap util vt (pre @ a # post)))
        (run_offset pre + i) (run_offset pre + k) = [run_rect util vt a i k]) \<and>
   (regular_run util vt a \<and> regular_run util vt b \<and>
    i < length (item_str a) \<and> 0 < j \<and> j \<le> length (item_str b) \<longrightarrow>
      getRectsForRange (snd (buildCharMap util vt (pre @ a # b # post)))
        (run_offset pre + i) (run_offset pre + (length (item_str a) + 1 + j)) =
      [run_rect util vt a i (length (item_str a)), run_rect util vt b 0 j])"
proof (intro conjI impI)
  show "getRectsForRange (snd (buildCharMap util vt items)) s e = run_rects util vt items s e"
    by (rule getRectsForRange_built)
next
  assume "regular_run util vt a \<and> i < k \<and> k \<le> length (item_str a)"
  then have "run_rects util vt (a # post) i k = [run_rect util vt a i k]"
    by (intro run_rects_one) simp_all
  then show "getRectsForRange (snd (buildCharMap util vt (pre @ a # post)))
        (run_offset pre + i) (run_offset pre + k) = [run_rect util vt a i k]"
    by (simp only: getRectsForRange_built run_rects_skip)
next
  assume "regular_run util vt a \<and> regular_run util vt b \<and>
    i < length (item_str a) \<and> 0 < j \<and> j \<le> length (item_str b)"
  then have "run_rects util vt (a # b # post) i (length (item_str a) + 1 + j) =
      [run_rect util vt a i (length (item_str a)), run_rect util vt b 0 j]"
    by (intro run_rects_two) simp_all
  then show "getRectsForRange (snd (buildCharMap util vt (pre @ a # b # post)))
        (run_offset pre + i) (run_offset pre + (length (item_str a) + 1 + j)) =
      [run_rect util vt a i (length (item_str a)), run_rect util vt b 0 j]"
    by (simp only: getRectsForRange_built run_rects_skip)
qed


lemmas eval_number =
  to_double_numeral to_double_0 js_sub_def

lemma sqrt_144: "sqrt 144 = 12"
  using real_sqrt_abs [of 12] by simp

lemmas eval_charmap =
  buildCharMap_def item_chars_def item_tx_def sqrt_144 upt_rec eval_number

lemmas eval_rects =
  getRectsForRange_walk char_span_def open_rect_def extend_rect_def same_line_def

lemmas eval_runs =
  regular_run_def item_top_def item_fontSize_def run_rect_def run_pos_def

theorem rects_one_per_run_witness:
  "regular_run None (Num 1, Num 0, Num 0, Num (- 1), Num 0, Num 792)
     \<lparr>item_str = ''078-05'', item_transform = (Num 12, Num 0, Num 0, Num 12, Num 72, Num 700),
      item_width = Num 36\<rparr> \<and>
   regular_run None (Num 1, Num 0, Num 0, Num (- 1), Num 0, Num 792)
     \<lparr>item_str = ''1120'', item_transform = (Num 12, Num 0, Num 0, Num 12, Num 114, Num 700),
      item_width = Num 24\<rparr> \<and>
   getRectsForRange
     (snd (buildCharMap None (Num 1, Num 0, Num 0, Num (- 1), Num 0, Num 792)
        [\<lparr>item_str = ''078-05'', item_transform = (Num 12, Num 0, Num 0, Num 12, Num 72, Num 700),
          item_width = Num 36\<rparr>,
         \<lparr>item_str = ''1120'', item_transform = (Num 12, Num 0, Num 0, Num 12, Num 114, Num 700),
          item_width = Num 24\<rparr>]))
     0 6 = [\<lparr>rect_x = Num 72, rect_y = Num 80, rect_width = Num 36, rect_height = Num 12\<rparr>] \<and>
   getRectsForRange
     (snd (buildCharMap None (Num 1, Num 0, Num 0, Num (- 1), Num 0, Num 792)
        [\<lparr>item_str = ''078-05'', item_transform = (Num 12, Num 0, Num 0, Num 12, Num 72, Num 700),
          item_width = Num 36\<rparr>,
         \<lparr>item_str = ''1120'', item_transform = (Num 12, Num 0, Num 0, Num 12, Num 114, Num 700),
          item_width = Num 24\<rparr>]))
     0 11 = [\<lparr>rect_x = Num 72, rect_y = Num 80, rect_width = Num 36, rect_height = Num 12\<rparr>,
             \<lparr>rect_x = Num 114, rect_y = Num 80, rect_width = Num 24, rect_height = Num 12\<rparr>]"
proof -
  let ?vt = "(Num 1, Num 0, Num 0, Num (- 1), Num 0, Num 792)"
  let ?a = "\<lparr>item_str = ''078-05'', item_transform = (Num 12, Num 0, Num 0, Num 12, Num 72, Num 700),
      item_width = Num 36\<rparr>"
  let ?b = "\<lparr>item_str = ''1120'', item_transform = (Num 12, Num 0, Num 0, Num 12, Num 114, Num 700),
      item_width = Num 24\<rparr>"
  have a: "regular_run None ?vt ?a" and b: "regular_run None ?vt ?b"
    by (simp_all add: eval_runs item_tx_def sqrt_144 eval_number)
  have ra: "run_rect None ?vt ?a 0 6 =
      \<lparr>rect_x = Num 72, rect_y = Num 80, rect_width = Num 36, rect_height = Num 12\<rparr>"
    by (simp add: eval_runs item_chars_def item_tx_def sqrt_144 eval_number upt_rec Let_def)
  have rb: "run_rect None ?vt ?b 0 4 =
      \<lparr>rect_x = Num 114, rect_y = Num 80, rect_width = Num 24, rect_height = Num 12\<rparr>"
    by (simp add: eval_runs item_chars_def item_tx_def sqrt_144 eval_number upt_rec Let_def)
  from rects_one_per_run [of None ?vt "[]" 0 0 ?a 0 6 "[]" "[?b]" ?b 4] a
  have one: "getRectsForRange (snd (buildCharMap None ?vt [?a, ?b])) 0 6 = [run_rect None ?vt ?a 0 6]"
    by (simp add: run_offset_def)
  from rects_one_per_run [of None ?vt "[]" 0 0 ?a 0 6 "[]" "[]" ?b 4] a b
  have two: "getRectsForRange (snd (buildCharMap None ?vt [?a, ?b])) 0 11 =
      [run_rect None ?vt ?a 0 6, run_rect None ?vt ?b 0 4]"
    by (simp add: run_offset_def eval_nat_numeral)
  from a b one two show ?thesis by (simp only: ra rb)
qed


text \<open>
  A run is not regular when its scale makes the square of the font height overflow or
  underflow: then \<open>fontSize\<close> is \<open>Infinity\<close> and the top is not finite, or \<open>fontSize\<close> is
  0; the comparison of the source fails at every character, and a span of the run gets
  one rectangle for each of its characters.
\<close>

lemma degenerate_scale:
  assumes "item_tx util vt (item_transform item) = (t0, t1, Num 0, Num c, t4, t5)"
    and "OVERFLOW \<le> c * c \<or> 2 * (c * c) < MIN_VALUE"
  shows "\<not> regular_run util vt item"
proof -
  from assms(2) show ?thesis
  proof
    assume "OVERFLOW \<le> c * c"
    then have "to_double (c * c) = Infinity" by (rule to_double_overflow)
    then have "item_fontSize util vt item = Infinity"
      by (simp add: item_fontSize_def assms(1) to_double_0)
    moreover have "item_top util vt item = js_sub t5 (item_fontSize util vt item)"
      by (simp add: item_top_def item_fontSize_def assms(1))
    ultimately have "\<not> is_finite (item_top util vt item)"
      by (cases t5) (simp_all add: js_sub_def)
    then show ?thesis by (simp add: regular_run_def)
  next
    assume "2 * (c * c) < MIN_VALUE"
    then have "to_double (c * c) = Num 0" by (intro to_double_underflow) simp_all
    then have "item_fontSize util vt item = Num 0"
      by (simp add: item_fontSize_def assms(1) to_double_0)
    then show ?thesis by (simp add: regular_run_def)
  qed
qed

lemma irregular_run_rects:
  assumes "\<not> regular_run util vt a" and "i < k" and "k \<le> length (item_str a)"
  shows "getRectsForRange (snd (buildCharMap util vt (pre @ a # post)))
           (run_offset pre + i) (run_offset pre + k) =
         map (\<lambda>i. open_rect (run_pos util vt a i)) [i ..< k]"
proof -
  have m: "min k (length (item_str a)) = k" and z: "k - Suc (length (item_str a)) = 0"
    using assms(3) by simp_all
  have "run_rects util vt (a # post) i k =
      map (\<lambda>i. open_rect (run_pos util vt a i)) [i ..< k] @
      run_rects util vt post (i - Suc (length (item_str a))) 0"
    using assms(1,2) by (simp only: run_rects.simps Let_def m z if_True if_False)
  then show ?thesis
    by (simp only: getRectsForRange_built run_rects_skip run_rects_end append_Nil2)
qed


lemma degenerate_scale_examples:
  assumes "item_tx util vt (item_transform item) = (t0, t1, Num 0, Num c, t4, t5)"
    and "c = 10 ^ 200 \<or> c = 1 / 10 ^ 200" and "2 \<le> length (item_str item)"
  shows "getRectsForRange (snd (buildCharMap util vt [item])) 0 2 =
         [open_rect (run_pos util vt item 0), open_rect (run_pos util vt item 1)]"
proof -
  have "OVERFLOW \<le> c * c \<or> 2 * (c * c) < MIN_VALUE"
  proof (rule disjE [OF assms(2)])
    assume c: "c = 10 ^ 200"
    have "OVERFLOW \<le> 10 ^ 200 * 10 ^ 200" by (simp add: OVERFLOW_def)
    then show ?thesis unfolding c by (rule disjI1)
  next
    assume c: "c = 1 / 10 ^ 200"
    have "2 * (1 / 10 ^ 200 * (1 / 10 ^ 200)) < MIN_VALUE" by (simp add: MIN_VALUE_def)
    then show ?thesis unfolding c by (rule disjI2)
  qed
  with assms(1) have "\<not> regular_run util vt item" by (rule degenerate_scale)
  from irregular_run_rects [OF this, of 0 2 "[]" "[]"] assms(3)
  show ?thesis by (simp add: run_offset_def upt_rec eval_nat_numeral)
qed

subsection \<open>Properties of the matcher\<close>

lemma take_drop_split:
  assumes "i \<le> k" "k \<le> j" "j \<le> length s"
  shows "take (j - i) (drop i s) = take (k - i) (drop i s) @ take (j - k) (drop k s)"
proof -
  have "take (j - i) (drop i s) = take ((k - i) + (j - k)) (drop i s)"
    using assms by simp
  also have "\<dots> = take (k - i) (drop i s) @ take (j - k) (drop (k - i) (drop i s))"
    by (rule take_add)
  also have "drop (k - i) (drop i s) = drop k s"
    using assms by simp
  finally show ?thesis .
qed

lemma ends_sound:
  "wf_rexp r \<Longrightarrow> i \<le> length s \<Longrightarrow> j \<in> set (ends ic r s i) \<Longrightarrow>
   i \<le> j \<and> j \<le> length s \<and> take (j - i) (drop i s) \<in> lang ic r"
proof (induction ic r s i arbitrary: j rule: ends.induct)
  case (1 ic cs s i)
  then have "i < length s" "cset_mem ic cs (s ! i)" "j = i + 1"
    by (auto split: if_splits)
  then show ?case
    by (simp add: take_Suc_conv_app_nth)
next
  case (2 ic s i)
  then show ?case by (auto split: if_splits)
next
  case (3 ic s i)
  then show ?case by simp
next
  case (4 ic a b s i)
  from "4.prems"(3) obtain k where k: "k \<in> set (ends ic a s i)" "j \<in> set (ends ic b s k)"
    by auto
  from "4.prems" have wf: "wf_rexp a" "wf_rexp b" by simp_all
  from "4.IH"(1) [OF wf(1) "4.prems"(2) k(1)]
  have a: "i \<le> k" "k \<le> length s" "take (k - i) (drop i s) \<in> lang ic a" by simp_all
  from "4.IH"(2) [OF k(1) wf(2) a(2) k(2)]
  have b: "k \<le> j" "j \<le> length s" "take (j - k) (drop k s) \<in> lang ic b" by simp_all
  have "take (j - i) (drop i s) = take (k - i) (drop i s) @ take (j - k) (drop k s)"
    using a b by (intro take_drop_split) simp_all
  with a b show ?case by auto
next
  case (5 ic a b s i)
  then show ?case by auto
next
  case (6 ic mn mx r s i)
  from "6.prems"(1) have wfr: "wf_rexp r" and le: "\<And>m. mx = Some m \<Longrightarrow> mn \<le> m"
    by (auto split: option.splits)
  show ?case
  proof (cases "mx = Some 0")
    case True
    then have "ends ic (Rep mn mx r) s i = [i]"
      by (subst ends.simps(6)) simp
    with True "6.prems" le show ?thesis
      by (auto intro!: exI [of _ 0])
  next
    case nz: False
    let ?mx' = "map_option (\<lambda>m. m - 1) mx"
    show ?thesis
    proof (cases "0 < mn")
      case True
      have wf': "wf_rexp (Rep (mn - 1) ?mx' r)"
        using wfr le by (auto split: option.splits)
      have "ends ic (Rep mn mx r) s i =
          concat (map (\<lambda>j. ends ic (Rep (mn - 1) ?mx' r) s j) (ends ic r s i))"
        using nz True by (subst ends.simps(6)) simp
      with "6.prems"(3) obtain k where
        k: "k \<in> set (ends ic r s i)" "j \<in> set (ends ic (Rep (mn - 1) ?mx' r) s k)"
        by auto
      from "6.IH"(1) [OF nz True wfr "6.prems"(2) k(1)]
      have a: "i \<le> k" "k \<le> length s" "take (k - i) (drop i s) \<in> lang ic r" by simp_all
      from "6.IH"(2) [OF nz True k(1) wf' a(2) k(2)]
      have b: "k \<le> j" "j \<le> length s" "take (j - k) (drop k s) \<in> lang ic (Rep (mn - 1) ?mx' r)"
        by simp_all
      then obtain n where n: "rep_count (mn - 1) ?mx' n" "take (j - k) (drop k s) \<in> lpow (lang ic r) n"
        by auto
      have split: "take (j - i) (drop i s) = take (k - i) (drop i s) @ take (j - k) (drop k s)"
        using a b by (intro take_drop_split) simp_all
      have "rep_count mn mx (Suc n)"
        using n(1) True nz le by (cases mx) auto
      moreover have "take (j - i) (drop i s) \<in> lpow (lang ic r) (Suc n)"
        using split a(3) n(2) by auto
      ultimately have "take (j - i) (drop i s) \<in> lang ic (Rep mn mx r)"
        unfolding lang.simps by blast
      then show ?thesis using a b by simp
    next
      case False
      then have mn0: "mn = 0" by simp
      show ?thesis
      proof (cases "j = i")
        case True
        have "rep_count mn mx 0" using mn0 by (cases mx) auto
        then show ?thesis using True "6.prems"(2) by (auto intro!: exI [of _ 0])
      next
        case ne: False
        have wf': "wf_rexp (Rep 0 ?mx' r)"
          using wfr by (auto split: option.splits)
        have "ends ic (Rep mn mx r) s i =
          concat (map (\<lambda>j. if i < j \<and> j \<le> length s then ends ic (Rep 0 ?mx' r) s j else [])
                      (ends ic r s i)) @ [i]"
          using nz False by (subst ends.simps(6)) simp
        with "6.prems"(3) ne obtain k where
          k: "k \<in> set (ends ic r s i)" "i < k" "k \<le> length s"
             "j \<in> set (ends ic (Rep 0 ?mx' r) s k)"
          by (auto split: if_splits)
        from "6.IH"(3) [OF nz False wfr "6.prems"(2) k(1)]
        have a: "take (k - i) (drop i s) \<in> lang ic r" by simp
        from "6.IH"(4) [OF nz False k(1) _ wf' k(3) k(4)] k(2,3)
        have b: "k \<le> j" "j \<le> length s" "take (j - k) (drop k s) \<in> lang ic (Rep 0 ?mx' r)"
          by simp_all
        then obtain n where n: "rep_count 0 ?mx' n" "take (j - k) (drop k s) \<in> lpow (lang ic r) n"
          by auto
        have split: "take (j - i) (drop i s) = take (k - i) (drop i s) @ take (j - k) (drop k s)"
          using k b by (intro take_drop_split) simp_all
        have "rep_count mn mx (Suc n)"
          using n(1) mn0 nz by (cases mx) auto
        moreover have "take (j - i) (drop i s) \<in> lpow (lang ic r) (Suc n)"
          using split a n(2) by auto
        ultimately have "take (j - i) (drop i s) \<in> lang ic (Rep mn mx r)"
          unfolding lang.simps by blast
        then show ?thesis using k b by simp
      qed
    qed
  qed
qed

lemma rx_exec_Some:
  "rx_exec ic r s i = Some (idx, m) \<Longrightarrow>
   i \<le> idx \<and> idx \<le> length s \<and> (\<exists>e \<in> set (ends ic r s idx). m = substring s idx e)"
proof (induction ic r s i rule: rx_exec.induct)
  case (1 ic r s i)
  show ?case
  proof (cases "length s < i")
    case True
    with "1.prems" show ?thesis by (subst (asm) rx_exec.simps) simp
  next
    case False
    show ?thesis
    proof (cases "ends ic r s i")
      case Nil
      with False "1.prems" have "rx_exec ic r s (i + 1) = Some (idx, m)"
        by (subst (asm) rx_exec.simps) simp
      from "1.IH" [OF False Nil this] show ?thesis by auto
    next
      case (Cons e es)
      with False "1.prems" have "idx = i" "m = substring s i e"
        by (subst (asm) rx_exec.simps, simp)+
      with Cons False show ?thesis by auto
    qed
  qed
qed

lemma rx_exec_match:
  assumes "wf_rexp r" and "rx_exec ic r s i = Some (idx, m)"
  shows "i \<le> idx \<and> idx + length m \<le> length s \<and> m = take (length m) (drop idx s) \<and> m \<in> lang ic r"
proof -
  from rx_exec_Some [OF assms(2)] obtain e where
    e: "i \<le> idx" "idx \<le> length s" "e \<in> set (ends ic r s idx)" "m = substring s idx e"
    by auto
  from ends_sound [OF assms(1) e(2) e(3)]
  have s: "idx \<le> e" "e \<le> length s" "take (e - idx) (drop idx s) \<in> lang ic r" by simp_all
  have m: "m = take (e - idx) (drop idx s)"
    using e(4) s e(2) by (simp add: substring_def Let_def min_def max_def)
  then have "length m = e - idx" using s by simp
  with m s e show ?thesis by simp
qed

lemma lpow_Nil: "[] \<in> lpow A k \<Longrightarrow> k = 0 \<or> [] \<in> A"
  by (cases k) auto

lemma not_nullable_lang: "\<not> nullable r \<Longrightarrow> [] \<notin> lang ic r"
proof (induction r)
  case (Rep mn mx r)
  then have "0 < mn" "[] \<notin> lang ic r" by auto
  then show ?case
    by (cases mx) (auto dest!: lpow_Nil)
qed auto

lemma rx_exec_progress:
  assumes "wf_rexp r" and "\<not> nullable r" and "rx_exec ic r s i = Some (idx, m)"
  shows "i \<le> idx \<and> m \<noteq> [] \<and> idx + length m \<le> length s"
  using rx_exec_match [OF assms(1,3)] not_nullable_lang [OF assms(2), of ic] by auto

subsection \<open>The shapes of the SSN and credit-card matches, and the validators\<close>

lemma rep_count_exact: "rep_count n (Some n) k = (k = n)"
  by auto

lemma rep_count_opt: "rep_count 0 (Some 1) k = (k = 0 \<or> k = Suc 0)"
  by auto

lemma lang_exactly: "lang ic (exactly n r) = lpow (lang ic r) n"
proof -
  have "lang ic (exactly n r) = {w. \<exists>k. k = n \<and> w \<in> lpow (lang ic r) k}"
    unfolding exactly_def lang.simps rep_count_exact ..
  then show ?thesis by simp
qed

lemma lang_opt: "lang ic (opt r) = insert [] (lang ic r)"
proof -
  have "lang ic (opt r) = {w. \<exists>k. (k = 0 \<or> k = Suc 0) \<and> w \<in> lpow (lang ic r) k}"
    unfolding opt_def lang.simps rep_count_opt ..
  also have "\<dots> = lpow (lang ic r) 0 \<union> lpow (lang ic r) (Suc 0)"
    by blast
  finally show ?thesis by simp
qed

lemma lang_digit: "lang ic digit = {[c] | c. is_digit c}"
  by (auto simp: digit_def cset_mem_def)

lemma lang_sep: "lang False sep = {[c] | c. c = CHR ''-'' \<or> is_space c}"
  by (auto simp: sep_def cset_mem_def)

lemma lpow_digits_2:
  "w \<in> lpow {[c] | c. is_digit c} 2 \<Longrightarrow> \<exists>a b. w = [a, b] \<and> is_digit a \<and> is_digit b"
  by (auto simp: numeral_eq_Suc)

lemma lpow_digits_3:
  "w \<in> lpow {[c] | c. is_digit c} 3 \<Longrightarrow> \<exists>a b c. w = [a, b, c] \<and> is_digit a \<and> is_digit b \<and> is_digit c"
  by (auto simp: numeral_eq_Suc)

lemma lpow_digits_4:
  "w \<in> lpow {[c] | c. is_digit c} 4 \<Longrightarrow>
   \<exists>a b c d. w = [a, b, c, d] \<and> is_digit a \<and> is_digit b \<and> is_digit c \<and> is_digit d"
  by (auto simp: numeral_eq_Suc)

lemma lang_SeqE:
  assumes "w \<in> lang ic (Seq a b)"
  obtains x y where "w = x @ y" "x \<in> lang ic a" "y \<in> lang ic b"
  using assms by auto

lemma opt_sep_shape:
  "s \<in> lang False (opt sep) \<Longrightarrow> s = [] \<or> (\<exists>x. s = [x] \<and> (x = CHR ''-'' \<or> is_space x))"
  by (auto simp: lang_opt lang_sep)

lemma ssn_shape:
  assumes "m \<in> lang False ssn_rexp"
  obtains a b c s1 d e s2 f g h k where
    "m = [a, b, c] @ s1 @ [d, e] @ s2 @ [f, g, h, k]"
    "is_digit a" "is_digit b" "is_digit c" "is_digit d" "is_digit e"
    "is_digit f" "is_digit g" "is_digit h" "is_digit k"
    "s1 = [] \<or> (\<exists>x. s1 = [x] \<and> (x = CHR ''-'' \<or> is_space x))"
    "s2 = [] \<or> (\<exists>x. s2 = [x] \<and> (x = CHR ''-'' \<or> is_space x))"
proof -
  from assms have "m \<in> lang False (Seq Bnd (Seq (exactly 3 digit) (Seq (opt sep)
      (Seq (exactly 2 digit) (Seq (opt sep) (Seq (exactly 4 digit) Bnd))))))"
    by (simp add: ssn_rexp_def)
  then obtain m0 m1 where m0: "m = m0 @ m1" "m0 \<in> lang False Bnd"
    and r1: "m1 \<in> lang False (Seq (exactly 3 digit) (Seq (opt sep)
      (Seq (exactly 2 digit) (Seq (opt sep) (Seq (exactly 4 digit) Bnd)))))"
    by (rule lang_SeqE)
  from r1 obtain w1 m2 where m1: "m1 = w1 @ m2" and w1: "w1 \<in> lang False (exactly 3 digit)"
    and r2: "m2 \<in> lang False (Seq (opt sep) (Seq (exactly 2 digit) (Seq (opt sep) (Seq (exactly 4 digit) Bnd))))"
    by (rule lang_SeqE)
  from r2 obtain s1 m3 where m2: "m2 = s1 @ m3" and s1: "s1 \<in> lang False (opt sep)"
    and r3: "m3 \<in> lang False (Seq (exactly 2 digit) (Seq (opt sep) (Seq (exactly 4 digit) Bnd)))"
    by (rule lang_SeqE)
  from r3 obtain w2 m4 where m3: "m3 = w2 @ m4" and w2: "w2 \<in> lang False (exactly 2 digit)"
    and r4: "m4 \<in> lang False (Seq (opt sep) (Seq (exactly 4 digit) Bnd))"
    by (rule lang_SeqE)
  from r4 obtain s2 m5 where m4: "m4 = s2 @ m5" and s2: "s2 \<in> lang False (opt sep)"
    and r5: "m5 \<in> lang False (Seq (exactly 4 digit) Bnd)"
    by (rule lang_SeqE)
  from r5 obtain w3 m6 where m5: "m5 = w3 @ m6" and w3: "w3 \<in> lang False (exactly 4 digit)"
    and r6: "m6 \<in> lang False Bnd"
    by (rule lang_SeqE)
  from r6 m0 have m6: "m6 = []" and m0': "m0 = []" by simp_all
  from w1 have "w1 \<in> lpow {[c] | c. is_digit c} 3"
    by (simp only: lang_exactly lang_digit)
  from lpow_digits_3 [OF this]
  obtain a b c where a: "w1 = [a, b, c]" "is_digit a" "is_digit b" "is_digit c"
    by blast
  from w2 have "w2 \<in> lpow {[c] | c. is_digit c} 2"
    by (simp only: lang_exactly lang_digit)
  from lpow_digits_2 [OF this]
  obtain d e where d: "w2 = [d, e]" "is_digit d" "is_digit e"
    by blast
  from w3 have "w3 \<in> lpow {[c] | c. is_digit c} 4"
    by (simp only: lang_exactly lang_digit)
  from lpow_digits_4 [OF this]
  obtain f g h k where f: "w3 = [f, g, h, k]" "is_digit f" "is_digit g" "is_digit h" "is_digit k"
    by blast
  have "m = [a, b, c] @ s1 @ [d, e] @ s2 @ [f, g, h, k]"
    using m0 m0' m1 m2 m3 m4 m5 m6 a(1) d(1) f(1) by simp
  then show ?thesis
    using a(2-) d(2-) f(2-) opt_sep_shape [OF s1] opt_sep_shape [OF s2]
    by (rule that [of a b c s1 d e s2 f g h k])
qed

lemma digit_not_sep: "is_digit c \<Longrightarrow> \<not> (c = CHR ''-'' \<or> is_space c)"
  by (auto simp: is_digit_def is_space_def Let_def)

lemma digit_val_range: "is_digit c \<Longrightarrow> 0 \<le> digit_val c \<and> digit_val c \<le> 9"
  by (auto simp: is_digit_def digit_val_def Let_def)

lemma digit_val_eq: "is_digit c \<Longrightarrow> is_digit d \<Longrightarrow> (digit_val c = digit_val d) = (c = d)"
  by (auto simp: is_digit_def digit_val_def Let_def)

lemma digit_val_consts:
  "digit_val CHR ''0'' = 0" "digit_val CHR ''6'' = 6" "digit_val CHR ''9'' = 9"
  "is_digit CHR ''0''" "is_digit CHR ''6''" "is_digit CHR ''9''"
  by (simp_all add: digit_val_def is_digit_def)

lemma radix_digit_10: "is_digit c \<Longrightarrow> radix_digit 10 c = Some (nat (digit_val c))"
  by (auto simp: is_digit_def digit_val_def radix_digit_def Let_def)

lemma parseInt_3digits:
  assumes "is_digit a" "is_digit b" "is_digit c"
  shows "parseInt [a, b, c] 0 = Some (100 * digit_val a + 10 * digit_val b + digit_val c)"
proof -
  have ns: "\<not> is_space a" "a \<noteq> CHR ''-''" "a \<noteq> CHR ''+''" "b \<noteq> CHR ''x''" "b \<noteq> CHR ''X''"
    using assms by (auto simp: is_digit_def is_space_def Let_def)
  have v: "0 \<le> digit_val a" "0 \<le> digit_val b" "0 \<le> digit_val c"
    using assms digit_val_range by auto
  show ?thesis
    using ns v by (simp add: parseInt_def Let_def radix_digit_10 assms)
qed


lemma area_zero:
  fixes x y z :: int
  assumes "0 \<le> x" "x \<le> 9" "0 \<le> y" "y \<le> 9" "0 \<le> z" "z \<le> 9"
  shows "(100 * x + 10 * y + z = 0) = (x = 0 \<and> y = 0 \<and> z = 0)"
proof
  assume e: "100 * x + 10 * y + z = 0"
  have "x = 0" using e assms by linarith
  moreover from this e have "y = 0" using assms by linarith
  ultimately show "x = 0 \<and> y = 0 \<and> z = 0" using e by simp
qed simp

lemma area_666:
  fixes x y z :: int
  assumes "0 \<le> x" "x \<le> 9" "0 \<le> y" "y \<le> 9" "0 \<le> z" "z \<le> 9"
  shows "(100 * x + 10 * y + z = 666) = (x = 6 \<and> y = 6 \<and> z = 6)"
proof
  assume e: "100 * x + 10 * y + z = 666"
  have "x = 6" using e assms by linarith
  moreover from this e have "y = 6" using assms by linarith
  ultimately show "x = 6 \<and> y = 6 \<and> z = 6" using e by simp
qed simp

lemma area_900:
  fixes x y z :: int
  assumes "0 \<le> x" "x \<le> 9" "0 \<le> y" "y \<le> 9" "0 \<le> z" "z \<le> 9"
  shows "(900 \<le> 100 * x + 10 * y + z) = (x = 9)"
  using assms by linarith

lemma digit_is:
  assumes "is_digit a"
  shows "(a = CHR ''0'') = (digit_val a = 0)" "(a = CHR ''6'') = (digit_val a = 6)"
    "(a = CHR ''9'') = (digit_val a = 9)"
  using digit_val_eq [OF assms, of "CHR ''0''"] digit_val_eq [OF assms, of "CHR ''6''"]
    digit_val_eq [OF assms, of "CHR ''9''"] digit_val_consts by auto

lemma ssn_digits_rule:
  assumes "is_digit a" "is_digit b" "is_digit c" "is_digit d" "is_digit e"
    "is_digit f" "is_digit g" "is_digit h" "is_digit k"
  shows "ssn_rule [a, b, c, d, e, f, g, h, k] =
         (\<not> (100 * digit_val a + 10 * digit_val b + digit_val c = 0 \<or>
             100 * digit_val a + 10 * digit_val b + digit_val c = 666 \<or>
             900 \<le> 100 * digit_val a + 10 * digit_val b + digit_val c) \<and>
          [d, e] \<noteq> ''00'' \<and> [f, g, h, k] \<noteq> ''0000'')"
proof -
  note r = digit_val_range [OF assms(1)] digit_val_range [OF assms(2)] digit_val_range [OF assms(3)]
  have area0: "(100 * digit_val a + 10 * digit_val b + digit_val c = 0) =
      (digit_val a = 0 \<and> digit_val b = 0 \<and> digit_val c = 0)"
    using r by (intro area_zero) simp_all
  have area666: "(100 * digit_val a + 10 * digit_val b + digit_val c = 666) =
      (digit_val a = 6 \<and> digit_val b = 6 \<and> digit_val c = 6)"
    using r by (intro area_666) simp_all
  have area9: "(900 \<le> 100 * digit_val a + 10 * digit_val b + digit_val c) = (digit_val a = 9)"
    using r by (intro area_900) simp_all
  have "ssn_rule [a, b, c, d, e, f, g, h, k] =
      (\<not> (a = CHR ''0'' \<and> b = CHR ''0'' \<and> c = CHR ''0'') \<and>
       \<not> (a = CHR ''6'' \<and> b = CHR ''6'' \<and> c = CHR ''6'') \<and> a \<noteq> CHR ''9'' \<and>
       [d, e] \<noteq> ''00'' \<and> [f, g, h, k] \<noteq> ''0000'')"
    using assms by (simp add: ssn_rule_def)
  also have "\<dots> = (\<not> (digit_val a = 0 \<and> digit_val b = 0 \<and> digit_val c = 0) \<and>
       \<not> (digit_val a = 6 \<and> digit_val b = 6 \<and> digit_val c = 6) \<and> digit_val a \<noteq> 9 \<and>
       [d, e] \<noteq> ''00'' \<and> [f, g, h, k] \<noteq> ''0000'')"
    by (simp only: digit_is [OF assms(1)] digit_is [OF assms(2)] digit_is [OF assms(3)])
  finally show ?thesis
    unfolding area0 area666 area9 by blast
qed

lemma strip_shape:
  assumes m: "m = [a, b, c] @ s1 @ [d, e] @ s2 @ [f, g, h, k]"
    and dig: "is_digit a" "is_digit b" "is_digit c" "is_digit d" "is_digit e"
      "is_digit f" "is_digit g" "is_digit h" "is_digit k"
    and s1: "s1 = [] \<or> (\<exists>x. s1 = [x] \<and> (x = CHR ''-'' \<or> is_space x))"
    and s2: "s2 = [] \<or> (\<exists>x. s2 = [x] \<and> (x = CHR ''-'' \<or> is_space x))"
  shows "strip_separators m = [a, b, c, d, e, f, g, h, k]"
proof -
  have s1': "strip_separators s1 = []" using s1 by (auto simp: strip_separators_def)
  have s2': "strip_separators s2 = []" using s2 by (auto simp: strip_separators_def)
  have "strip_separators m = strip_separators [a, b, c] @ strip_separators s1 @
      strip_separators [d, e] @ strip_separators s2 @ strip_separators [f, g, h, k]"
    unfolding m strip_separators_def by (simp only: filter_append)
  also have "\<dots> = [a, b, c, d, e, f, g, h, k]"
    unfolding s1' s2' using dig [THEN digit_not_sep] by (simp add: strip_separators_def)
  finally show ?thesis .
qed

lemma ssn_validate_digits:
  assumes dig: "is_digit a" "is_digit b" "is_digit c"
    and strip: "strip_separators m = [a, b, c, d, e, f, g, h, k]"
  shows "ssn_validate m =
         (\<not> (100 * digit_val a + 10 * digit_val b + digit_val c = 0 \<or>
             100 * digit_val a + 10 * digit_val b + digit_val c = 666 \<or>
             900 \<le> 100 * digit_val a + 10 * digit_val b + digit_val c) \<and>
          [d, e] \<noteq> ''00'' \<and> [f, g, h, k] \<noteq> ''0000'')"
proof -
  have sub: "substring [a, b, c, d, e, f, g, h, k] 0 3 = [a, b, c]"
    "substring [a, b, c, d, e, f, g, h, k] 3 5 = [d, e]"
    "substring_from [a, b, c, d, e, f, g, h, k] 5 = [f, g, h, k]"
    by (simp_all add: substring_def substring_from_def)
  show ?thesis
    unfolding ssn_validate_def strip Let_def sub parseInt_3digits [OF dig]
    by simp
qed

lemma ssn_validate_shape:
  assumes m: "m = [a, b, c] @ s1 @ [d, e] @ s2 @ [f, g, h, k]"
    and dig: "is_digit a" "is_digit b" "is_digit c" "is_digit d" "is_digit e"
      "is_digit f" "is_digit g" "is_digit h" "is_digit k"
    and s1: "s1 = [] \<or> (\<exists>x. s1 = [x] \<and> (x = CHR ''-'' \<or> is_space x))"
    and s2: "s2 = [] \<or> (\<exists>x. s2 = [x] \<and> (x = CHR ''-'' \<or> is_space x))"
  shows "ssn_validate m = ssn_rule (strip_separators m)"
proof -
  have strip: "strip_separators m = [a, b, c, d, e, f, g, h, k]"
    by (rule strip_shape [OF m dig s1 s2])
  have "ssn_validate m = ssn_rule [a, b, c, d, e, f, g, h, k]"
    by (simp only: ssn_validate_digits [OF dig(1-3) strip] ssn_digits_rule [OF dig])
  then show ?thesis by (simp only: strip)
qed

lemma ssn_validate_lang:
  assumes "m \<in> lang False ssn_rexp"
  shows "ssn_validate m = ssn_rule (strip_separators m)"
  using assms
proof (rule ssn_shape)
  fix a b c s1 d e s2 f g h k
  assume "m = [a, b, c] @ s1 @ [d, e] @ s2 @ [f, g, h, k]"
    "is_digit a" "is_digit b" "is_digit c" "is_digit d" "is_digit e"
    "is_digit f" "is_digit g" "is_digit h" "is_digit k"
    "s1 = [] \<or> (\<exists>x. s1 = [x] \<and> (x = CHR ''-'' \<or> is_space x))"
    "s2 = [] \<or> (\<exists>x. s2 = [x] \<and> (x = CHR ''-'' \<or> is_space x))"
  then show ?thesis by (rule ssn_validate_shape)
qed

lemma parseInt_digit_10: "is_digit c \<Longrightarrow> parseInt [c] 10 = Some (digit_val c)"
proof -
  assume d: "is_digit c"
  then have ns: "\<not> is_space c" "c \<noteq> CHR ''-''" "c \<noteq> CHR ''+''"
    by (auto simp: is_digit_def is_space_def Let_def)
  have v: "0 \<le> digit_val c" using d digit_val_range by auto
  show ?thesis
    using ns v by (simp add: parseInt_def Let_def radix_digit_10 d)
qed

lemma luhn_step_digit: "luhn_step (Some v) alt = Some (luhn_digit (if alt then 1 else 0) v)"
  by (simp add: luhn_step_def luhn_digit_def Let_def mult.commute)

lemma luhn_digit_parity: "odd m = odd n \<Longrightarrow> luhn_digit m v = luhn_digit n v"
  by (simp add: luhn_digit_def)

lemma luhn_loop_digits:
  assumes "list_all is_digit num"
  shows "k \<le> length num \<Longrightarrow>
    luhn_loop num k (Some a) alt =
      Some (a + (\<Sum>j<k. luhn_digit (j + (if alt then 1 else 0)) (digit_val (rev (take k num) ! j))))"
proof (induction k arbitrary: a alt)
  case 0
  then show ?case by simp
next
  case (Suc k)
  then have k: "k < length num" by simp
  then have dk: "is_digit (num ! k)" using assms by (simp add: list_all_length)
  let ?b = "if alt then 1 else 0 :: nat"
  let ?b' = "if \<not> alt then 1 else 0 :: nat"
  let ?v = "digit_val (num ! k)"
  have step: "luhn_loop num (Suc k) (Some a) alt = luhn_loop num k (Some (a + luhn_digit ?b ?v)) (\<not> alt)"
    by (simp add: parseInt_digit_10 [OF dk] luhn_step_digit num_add_def Let_def del: parseInt_def)
  have rv: "rev (take (Suc k) num) = num ! k # rev (take k num)"
    using k by (simp add: take_Suc_conv_app_nth)
  have par: "\<And>j v. luhn_digit (Suc j + ?b) v = luhn_digit (j + ?b') v"
    by (rule luhn_digit_parity) simp
  have "(\<Sum>j<Suc k. luhn_digit (j + ?b) (digit_val (rev (take (Suc k) num) ! j))) =
        luhn_digit (0 + ?b) (digit_val ((num ! k # rev (take k num)) ! 0)) +
        (\<Sum>j<k. luhn_digit (Suc j + ?b) (digit_val ((num ! k # rev (take k num)) ! Suc j)))"
    unfolding rv by (rule sum.lessThan_Suc_shift)
  also have "\<dots> = luhn_digit ?b ?v + (\<Sum>j<k. luhn_digit (j + ?b') (digit_val (rev (take k num) ! j)))"
    by (simp only: par nth_Cons_0 nth_Cons_Suc add_0)
  finally have "(\<Sum>j<Suc k. luhn_digit (j + ?b) (digit_val (rev (take (Suc k) num) ! j))) =
        luhn_digit ?b ?v + (\<Sum>j<k. luhn_digit (j + ?b') (digit_val (rev (take k num) ! j)))" .
  with step Suc.IH [of "a + luhn_digit ?b ?v" "\<not> alt"] k show ?case
    by (simp del: sum.lessThan_Suc luhn_loop.simps)
qed

lemma luhnCheck_digits:
  assumes "list_all is_digit d"
  shows "luhnCheck d = luhn_valid d"
  using luhn_loop_digits [OF assms, of "length d" 0 False]
  by (simp add: luhnCheck_def luhn_valid_def luhn_sum_def)

lemma creditCard_validate_digits:
  assumes "list_all is_digit (strip_separators m)"
  shows "creditCard_validate m =
     (13 \<le> length (strip_separators m) \<and> length (strip_separators m) \<le> 19 \<and>
      luhn_valid (strip_separators m))"
  using luhnCheck_digits [OF assms] by (auto simp: creditCard_validate_def Let_def)

lemma lpow_alphabet:
  "(\<And>w. w \<in> A \<Longrightarrow> \<forall>c \<in> set w. P c) \<Longrightarrow> w \<in> lpow A k \<Longrightarrow> \<forall>c \<in> set w. P c"
  by (induction k arbitrary: w) fastforce+

lemma lang_alphabet:
  assumes "\<And>cs c. cs \<in> set (csets r) \<Longrightarrow> cset_mem ic cs c \<Longrightarrow> P c"
  shows "w \<in> lang ic r \<Longrightarrow> \<forall>c \<in> set w. P c"
  using assms
proof (induction r arbitrary: w)
  case (Rep mn mx r)
  from Rep.prems(1) obtain k where "w \<in> lpow (lang ic r) k" by auto
  moreover have "\<And>w. w \<in> lang ic r \<Longrightarrow> \<forall>c \<in> set w. P c"
    using Rep.IH Rep.prems(2) by simp
  ultimately show ?case by (rule lpow_alphabet [rotated])
qed fastforce+

lemma creditCard_alphabet:
  assumes "m \<in> lang False creditCard_rexp"
  shows "list_all is_digit (strip_separators m)"
proof -
  have "\<forall>c \<in> set m. is_digit c \<or> c = CHR ''-'' \<or> is_space c"
    using assms
    by (rule lang_alphabet [rotated])
      (auto simp: creditCard_rexp_def exactly_def opt_def digit_def sep_def cset_mem_def)
  then show ?thesis
    by (auto simp: strip_separators_def list_all_iff)
qed

lemma wf_builtin:
  "wf_rexp ssn_rexp" "wf_rexp creditCard_rexp" "wf_rexp email_rexp" "wf_rexp phone_rexp"
  "wf_rexp date_rexp"
  by (simp_all add: ssn_rexp_def creditCard_rexp_def email_rexp_def phone_rexp_def date_rexp_def
      exactly_def opt_def star_def plus1_def digit_def sep_def phone_sep_def date_sep_def chr1_def lit_def)

lemma not_nullable_builtin:
  "\<not> nullable ssn_rexp" "\<not> nullable creditCard_rexp" "\<not> nullable email_rexp"
  "\<not> nullable phone_rexp" "\<not> nullable date_rexp"
  by (simp_all add: ssn_rexp_def creditCard_rexp_def email_rexp_def phone_rexp_def date_rexp_def
      exactly_def opt_def star_def plus1_def digit_def sep_def phone_sep_def date_sep_def chr1_def lit_def)

lemma ssn_example_match: "rx_exec False ssn_rexp ''id 078-05-1120.'' 0 = Some (3, ''078-05-1120'')"
  by (simp add: rx_exec.simps ends.simps(6) ssn_rexp_def exactly_def opt_def digit_def sep_def cset_mem_def
      word_boundary_def is_digit_def is_space_def is_word_char_def substring_def)

lemma creditCard_example_match:
  "rx_exec False creditCard_rexp ''4532 0151 1283 0366'' 0 = Some (0, ''4532 0151 1283 0366'')"
  by (simp add: rx_exec.simps ends.simps(6) creditCard_rexp_def exactly_def opt_def digit_def sep_def cset_mem_def
      word_boundary_def is_digit_def is_space_def is_word_char_def substring_def)

lemma ssn_examples:
  "ssn_validate ''078-05-1120''" "\<not> ssn_validate ''000-12-3456''" "\<not> ssn_validate ''123-00-4567''"
  by (simp_all add: ssn_validate_def strip_separators_def is_space_def parseInt_def substring_def
      substring_from_def radix_digit_def Let_def)

lemma creditCard_examples:
  "creditCard_validate ''4532015112830366''" "\<not> creditCard_validate ''4532015112830367''"
  "creditCard_validate ''4532 0151 1283 0366''"
  by (simp_all add: creditCard_validate_def luhnCheck_def luhn_step_def num_add_def strip_separators_def
      is_space_def parseInt_def radix_digit_def Let_def numeral_eq_Suc)

text \<open>
  C3. Applied to any match of the SSN expression (any match that \<open>exec\<close> reports in any
  text, and more generally any string of the SSN shape), the validator strips the
  separators and accepts exactly when the stripped string satisfies the SSN rule: nine
  digits whose area is not 000, not 666 and not in 900-999, whose group is not 00 and
  whose serial is not 0000. In particular it accepts 078-05-1120 and rejects 000-12-3456
  and 123-00-4567.
\<close>

theorem ssn_validator_accepts_exactly:
  "(\<forall>text i idx m. rx_exec False ssn_rexp text i = Some (idx, m) \<longrightarrow>
      ssn_validate m = ssn_rule (strip_separators m)) \<and>
   (\<forall>m \<in> lang False ssn_rexp. ssn_validate m = ssn_rule (strip_separators m)) \<and>
   ssn_validate ''078-05-1120'' \<and> \<not> ssn_validate ''000-12-3456'' \<and> \<not> ssn_validate ''123-00-4567''"
proof -
  have "ssn_validate m = ssn_rule (strip_separators m)"
    if "rx_exec False ssn_rexp s i = Some (idx, m)" for s i idx m
    using rx_exec_match [OF wf_builtin(1) that] by (intro ssn_validate_lang) simp
  then show ?thesis
    using ssn_validate_lang ssn_examples by blast
qed

theorem ssn_validator_witness:
  "rx_exec False ssn_rexp ''id 078-05-1120.'' 0 = Some (3, ''078-05-1120'') \<and>
   ssn_validate ''078-05-1120'' \<and> ssn_rule (strip_separators ''078-05-1120'')"
proof -
  have m: "rx_exec False ssn_rexp ''id 078-05-1120.'' 0 = Some (3, ''078-05-1120'')"
    by (rule ssn_example_match)
  from ssn_validator_accepts_exactly m
  have "ssn_validate ''078-05-1120'' = ssn_rule (strip_separators ''078-05-1120'')"
    by blast
  moreover from ssn_validator_accepts_exactly have "ssn_validate ''078-05-1120''"
    by blast
  ultimately show ?thesis using m by simp
qed

text \<open>
  C4. The credit-card validator strips the separators; on a stripped string of digits
  (which every match of the card expression gives) it rejects a length under 13 or over
  19, and otherwise accepts exactly when the Luhn checksum holds. In particular it accepts
  4532015112830366 and rejects 4532015112830367.
\<close>

theorem creditCard_validator_is_luhn:
  "(\<forall>text i idx m. rx_exec False creditCard_rexp text i = Some (idx, m) \<longrightarrow>
      list_all is_digit (strip_separators m) \<and>
      creditCard_validate m =
        (13 \<le> length (strip_separators m) \<and> length (strip_separators m) \<le> 19 \<and>
         luhn_valid (strip_separators m))) \<and>
   (\<forall>m. list_all is_digit (strip_separators m) \<longrightarrow>
      creditCard_validate m =
        (13 \<le> length (strip_separators m) \<and> length (strip_separators m) \<le> 19 \<and>
         luhn_valid (strip_separators m))) \<and>
   creditCard_validate ''4532015112830366'' \<and> \<not> creditCard_validate ''4532015112830367''"
proof -
  have "list_all is_digit (strip_separators m)"
    if "rx_exec False creditCard_rexp s i = Some (idx, m)" for s i idx m
    using rx_exec_match [OF wf_builtin(2) that] by (intro creditCard_alphabet) simp
  then show ?thesis
    using creditCard_validate_digits creditCard_examples(1,2) by blast
qed

theorem creditCard_validator_witness:
  "rx_exec False creditCard_rexp ''4532 0151 1283 0366'' 0 = Some (0, ''4532 0151 1283 0366'') \<and>
   creditCard_validate ''4532 0151 1283 0366'' \<and>
   luhn_valid (strip_separators ''4532 0151 1283 0366'')"
proof -
  have m: "rx_exec False creditCard_rexp ''4532 0151 1283 0366'' 0 = Some (0, ''4532 0151 1283 0366'')"
    by (rule creditCard_example_match)
  from creditCard_validator_is_luhn m
  have "creditCard_validate ''4532 0151 1283 0366'' =
        (13 \<le> length (strip_separators ''4532 0151 1283 0366'') \<and>
         length (strip_separators ''4532 0151 1283 0366'') \<le> 19 \<and>
         luhn_valid (strip_separators ''4532 0151 1283 0366''))"
    by blast
  with creditCard_examples(3) m show ?thesis by simp
qed

subsection \<open>Literal patterns\<close>

lemma ends_seq_of_Cons:
  "ends ic (seq_of (r # rs)) s i = concat (map (ends ic (seq_of rs) s) (ends ic r s i))"
proof (cases rs)
  case Nil
  have "ends ic Eps s = (\<lambda>j. [j])"
    by (rule ext) simp
  with Nil show ?thesis by (simp add: concat_map_singleton)
next
  case (Cons r' rs')
  then show ?thesis by simp
qed

lemma prefix_Cons_iff:
  "(map f (take (Suc n) (drop i s)) = f c # map f cs) =
   (i < length s \<and> f (s ! i) = f c \<and> map f (take n (drop (Suc i) s)) = map f cs)"
proof (cases "i < length s")
  case True
  then have "drop i s = s ! i # drop (Suc i) s" by (simp add: Cons_nth_drop_Suc)
  then show ?thesis using True by simp
next
  case False
  then show ?thesis by simp
qed

lemma ends_lit:
  "ends True (lit cp) s i =
     (if map canonicalize (take (length cp) (drop i s)) = map canonicalize cp
      then [i + length cp] else [])"
proof (induction cp arbitrary: i)
  case Nil
  then show ?case by (simp add: lit_def)
next
  case (Cons c cs)
  have "ends True (lit (c # cs)) s i =
        concat (map (ends True (lit cs) s) (ends True (chr1 c) s i))"
    unfolding lit_def list.map by (rule ends_seq_of_Cons)
  also have "ends True (chr1 c) s i =
        (if i < length s \<and> canonicalize (s ! i) = canonicalize c then [i + 1] else [])"
    by (auto simp: chr1_def cset_mem_def)
  finally show ?case
    using prefix_Cons_iff [of canonicalize "length cs" i s c cs]
    by (simp add: Cons.IH)
qed

lemma rx_exec_lit: "rx_exec True (lit cp) s i = find_literal cp s i"
proof (induction cp s i rule: find_literal.induct)
  case (1 pat s i)
  show ?case
  proof (cases "length s < i")
    case True
    then show ?thesis
      by (subst rx_exec.simps, subst find_literal.simps) simp
  next
    case False
    show ?thesis
    proof (cases "map canonicalize (take (length pat) (drop i s)) = map canonicalize pat")
      case True
      then have "length (take (length pat) (drop i s)) = length pat"
        using length_map [of canonicalize] by metis
      then have "i + length pat \<le> length s" using False by simp
      then have "substring s i (i + length pat) = take (length pat) (drop i s)"
        by (simp add: substring_def Let_def min_def max_def)
      with True False show ?thesis
        by (subst rx_exec.simps, subst find_literal.simps) (simp add: ends_lit)
    next
      case ne: False
      with False "1.IH" show ?thesis
        by (subst rx_exec.simps, subst find_literal.simps) (simp add: ends_lit)
    qed
  qed
qed

lemma unquote_quote: "unquote_pattern (quote_pattern s) = Some s"
  by (induction s) (simp_all add: quote_pattern_def syntax_character_def)

lemma RegExp_literal_compiles: "compiles_literals RegExp_literal"
  by (simp add: compiles_literals_def RegExp_literal_def unquote_quote)

lemma escapeRegex_quotes: "escapeRegex s = quote_pattern s"
proof -
  have "\<And>c. (c \<in> set escaped_class) = syntax_character c"
    by (auto simp: escaped_class_def syntax_character_def)
  then show ?thesis by (simp add: escapeRegex_def quote_pattern_def)
qed

subsection \<open>The search loops\<close>

lemma rx_exec_progresses:
  "wf_rexp r \<Longrightarrow> \<not> nullable r \<Longrightarrow> progresses (rx_exec ic r)"
  unfolding progresses_def using rx_exec_progress by blast

lemma getRectsForRange_nulls:
  assumes "\<forall>e \<in> set (char_span cm s e). e = None"
  shows "getRectsForRange cm s e = []"
proof -
  have "\<forall>e \<in> set es. e = None \<Longrightarrow> walk sl es None = []" for sl es
    by (induction es) auto
  with assms show ?thesis by (simp add: getRectsForRange_walk)
qed

lemma match_loop_empty_match:
  assumes "regex fullText i = Some (i, [])"
  shows "match_loop regex validate fullText charMap pageNum patternName i results = None"
proof (rule ccontr)
  assume "match_loop regex validate fullText charMap pageNum patternName i results \<noteq> None"
  then obtain y where y: "match_loop regex validate fullText charMap pageNum patternName i results = Some y"
    by auto
  have "regex fullText i \<noteq> Some (i, [])"
  proof (rule match_loop.raw_induct
      [where P = "\<lambda>rx v ft cm pn name li res y. rx ft li \<noteq> Some (li, [])", OF _ y], goal_cases)
    case (1 f rx v ft cm pn name li res y)
    show ?case
    proof
      assume e: "rx ft li = Some (li, [])"
      have "getRectsForRange cm li li = []"
        by (rule getRectsForRange_nulls) (simp add: char_span_def)
      with e 1(2) have "f rx v ft cm pn name li res = Some y"
        by (simp split: if_splits)
      from 1(1) [OF this] e show False by simp
    qed
  qed
  with assms show False by simp
qed

lemma match_loop_rects:
  assumes "match_loop regex validate fullText charMap pageNum patternName i results = Some rs"
    and "\<forall>r \<in> set results. res_rects r \<noteq> []"
  shows "\<forall>r \<in> set rs. res_rects r \<noteq> []"
proof -
  have "(\<forall>r \<in> set results. res_rects r \<noteq> []) \<longrightarrow> (\<forall>r \<in> set rs. res_rects r \<noteq> [])"
  proof (rule match_loop.raw_induct
      [where P = "\<lambda>rx v ft cm pn name li res y.
         (\<forall>r \<in> set res. res_rects r \<noteq> []) \<longrightarrow> (\<forall>r \<in> set y. res_rects r \<noteq> [])",
       OF _ assms(1)], goal_cases)
  case (1 f rx v ft cm pn name li res y)
  show ?case
  proof (cases "rx ft li")
    case None
    with 1(2) show ?thesis by simp
  next
    case (Some p)
    obtain idx m where p: "p = (idx, m)" by (cases p)
    show ?thesis
    proof (cases "v m \<and> 0 < length (getRectsForRange cm idx (idx + length m))")
      case True
      with Some p 1(2) have "f rx v ft cm pn name (idx + length m)
          (res @ [\<lparr>res_pageNum = pn, res_pattern = name, res_text = m,
                    res_rects = getRectsForRange cm idx (idx + length m)\<rparr>]) = Some y"
        by (simp add: Let_def)
      from 1(1) [OF this] True show ?thesis by auto
    next
      case False
      with Some p 1(2) have "f rx v ft cm pn name (idx + length m) res = Some y"
        by (auto simp: Let_def split: if_splits)
      from 1(1) [OF this] show ?thesis by auto
    qed
  qed
  qed
  with assms(2) show ?thesis by simp
qed

lemma match_loop_returns:
  assumes "progresses regex"
  shows "\<exists>rs. match_loop regex validate fullText charMap pageNum patternName i results = Some rs"
proof (induction "length fullText - i" arbitrary: i results rule: less_induct)
  case less
  show ?case
  proof (cases "regex fullText i")
    case None
    then show ?thesis by (subst match_loop.simps) simp
  next
    case (Some p)
    obtain idx m where p: "p = (idx, m)" by (cases p)
    from assms Some p have pr: "i \<le> idx" "m \<noteq> []" "idx + length m \<le> length fullText"
      unfolding progresses_def by blast+
    then have dec: "length fullText - (idx + length m) < length fullText - i"
      by (cases m) auto
    from less [OF dec] Some p show ?thesis
      by (subst match_loop.simps) (simp add: Let_def)
  qed
qed

lemma search_names_rects:
  assumes "search_names R cpo ft cm pn names acc = Some (Inr rs)"
    and "\<forall>r \<in> set acc. res_rects r \<noteq> []"
  shows "\<forall>r \<in> set rs. res_rects r \<noteq> []"
  using assms
proof (induction names arbitrary: acc)
  case Nil
  then show ?case by simp
next
  case (Cons name names)
  show ?case
  proof (cases "REDACTION_PATTERNS name")
    case None
    with Cons show ?thesis by simp
  next
    case (Some pattern)
    show ?thesis
    proof (cases "pattern_regex R name pattern cpo")
      case (Inl e)
      with Some Cons.prems show ?thesis by simp
    next
      case (Inr ro)
      show ?thesis
      proof (cases ro)
        case None
        with Some Inr Cons show ?thesis by simp
      next
        case rx: (Some regex)
        show ?thesis
        proof (cases "match_loop regex (pat_validate pattern) ft cm pn name 0 acc")
          case None
          with Some Inr rx Cons.prems show ?thesis by simp
        next
          case ml: (Some acc')
          from match_loop_rects [OF ml Cons.prems(2)]
          have "\<forall>r \<in> set acc'. res_rects r \<noteq> []" .
          moreover from Some Inr rx ml Cons.prems(1)
          have "search_names R cpo ft cm pn names acc' = Some (Inr rs)" by simp
          ultimately show ?thesis by (rule Cons.IH [rotated])
        qed
      qed
    qed
  qed
qed

lemma search_pages_rects:
  assumes "search_pages R util names cpo pages pn acc = Some (Inr rs)"
    and "\<forall>r \<in> set acc. res_rects r \<noteq> []"
  shows "\<forall>r \<in> set rs. res_rects r \<noteq> []"
  using assms
proof (induction pages arbitrary: pn acc)
  case Nil
  then show ?case by simp
next
  case (Cons pg pages)
  obtain ft cm where b: "buildCharMap util (page_viewport pg) (page_items pg) = (ft, cm)"
    by (cases "buildCharMap util (page_viewport pg) (page_items pg)")
  show ?case
  proof (cases "search_names R cpo ft cm pn names acc")
    case None
    with b Cons.prems show ?thesis by simp
  next
    case (Some res)
    show ?thesis
    proof (cases res)
      case (Inl e)
      with Some b Cons.prems show ?thesis by simp
    next
      case (Inr acc')
      from search_names_rects [OF Some [unfolded Inr] Cons.prems(2)]
      have "\<forall>r \<in> set acc'. res_rects r \<noteq> []" .
      moreover from Some Inr b Cons.prems(1)
      have "search_pages R util names cpo pages (pn + 1) acc' = Some (Inr rs)" by simp
      ultimately show ?thesis by (rule Cons.IH [rotated])
    qed
  qed
qed

lemma searchPatterns_rects:
  assumes "searchPatterns R util pdfDoc names cpo = Some (Inr rs)"
  shows "\<forall>r \<in> set rs. res_rects r \<noteq> []"
proof (cases pdfDoc)
  case None
  with assms show ?thesis by (simp add: searchPatterns_def)
next
  case (Some pages)
  with assms have "search_pages R util names cpo pages 1 [] = Some (Inr rs)"
    by (simp add: searchPatterns_def)
  then show ?thesis by (rule search_pages_rects) simp
qed

text \<open>Every expression that a pattern name selects makes progress, and none throws.\<close>

lemma search_names_returns:
  assumes "\<And>name pattern. REDACTION_PATTERNS name = Some pattern \<Longrightarrow>
      (\<exists>ro. pattern_regex R name pattern cpo = Inr ro \<and> (\<forall>rx. ro = Some rx \<longrightarrow> progresses rx))"
  shows "\<exists>rs. search_names R cpo ft cm pn names acc = Some (Inr rs)"
proof (induction names arbitrary: acc)
  case Nil
  then show ?case by simp
next
  case (Cons name names)
  show ?case
  proof (cases "REDACTION_PATTERNS name")
    case None
    with Cons show ?thesis by simp
  next
    case (Some pattern)
    from assms [OF Some] obtain ro where
      ro: "pattern_regex R name pattern cpo = Inr ro" "\<forall>rx. ro = Some rx \<longrightarrow> progresses rx"
      by blast
    show ?thesis
    proof (cases ro)
      case None
      with Some ro Cons show ?thesis by simp
    next
      case rx: (Some regex)
      with ro have "progresses regex" by simp
      from match_loop_returns [OF this, of "pat_validate pattern" ft cm pn name 0 acc]
      obtain acc' where "match_loop regex (pat_validate pattern) ft cm pn name 0 acc = Some acc'"
        by blast
      with Some ro rx Cons.IH [of acc'] show ?thesis by simp
    qed
  qed
qed

lemma search_pages_returns:
  assumes "\<And>name pattern. REDACTION_PATTERNS name = Some pattern \<Longrightarrow>
      (\<exists>ro. pattern_regex R name pattern cpo = Inr ro \<and> (\<forall>rx. ro = Some rx \<longrightarrow> progresses rx))"
  shows "\<exists>rs. search_pages R util names cpo pages pn acc = Some (Inr rs)"
proof (induction pages arbitrary: pn acc)
  case Nil
  then show ?case by simp
next
  case (Cons pg pages)
  obtain ft cm where b: "buildCharMap util (page_viewport pg) (page_items pg) = (ft, cm)"
    by (cases "buildCharMap util (page_viewport pg) (page_items pg)")
  from search_names_returns [OF assms, of ft cm pn names acc]
  obtain acc' where "search_names R cpo ft cm pn names acc = Some (Inr acc')"
    by blast
  with b Cons.IH [of "pn + 1" acc'] show ?case by simp
qed

lemma builtin_regex_progresses:
  assumes "REDACTION_PATTERNS name = Some pattern" and "pat_regex pattern = Some rx"
  shows "progresses rx"
  using assms wf_builtin not_nullable_builtin
  by (auto simp: REDACTION_PATTERNS_def split: if_splits intro: rx_exec_progresses)

lemma lit_wf: "wf_rexp (lit s)"
proof -
  have "wf_rexp (seq_of rs)" if "\<forall>r \<in> set rs. wf_rexp r" for rs
    using that by (induction rs rule: seq_of.induct) auto
  then show ?thesis by (simp add: lit_def chr1_def)
qed

lemma lit_not_nullable: "s \<noteq> [] \<Longrightarrow> \<not> nullable (lit s)"
proof -
  have "\<not> nullable (seq_of rs)" if "rs \<noteq> []" "\<forall>r \<in> set rs. \<not> nullable r" for rs
    using that by (induction rs rule: seq_of.induct) auto
  then show "s \<noteq> [] \<Longrightarrow> \<not> nullable (lit s)" by (simp add: lit_def chr1_def)
qed

lemma invalid_custom_regex:
  assumes "compiles_literals RegExp_gi" and "RegExp_gi cp = None"
  shows "cp \<noteq> []"
    and "pattern_regex RegExp_gi ''custom'' pattern (Some cp) = Inr (Some (find_literal cp))"
proof -
  from assms(1) have q: "\<And>s. RegExp_gi (quote_pattern s) = Some (rx_exec True (lit s))"
    by (simp add: compiles_literals_def)
  from q [of "[]"] assms(2) show ne: "cp \<noteq> []"
    by (auto simp: quote_pattern_def)
  have "rx_exec True (lit cp) = find_literal cp"
    by (intro ext) (rule rx_exec_lit)
  with ne assms(2) q [of cp] show
    "pattern_regex RegExp_gi ''custom'' pattern (Some cp) = Inr (Some (find_literal cp))"
    by (simp add: pattern_regex_def escapeRegex_quotes)
qed

lemma find_literal_progresses: "cp \<noteq> [] \<Longrightarrow> progresses (find_literal cp)"
proof -
  assume "cp \<noteq> []"
  then have "progresses (rx_exec True (lit cp))"
    by (intro rx_exec_progresses lit_wf lit_not_nullable)
  moreover have "rx_exec True (lit cp) = find_literal cp"
    by (intro ext) (rule rx_exec_lit)
  ultimately show ?thesis by simp
qed

lemma invalid_custom_names:
  assumes "compiles_literals RegExp_gi" and "RegExp_gi cp = None"
    and "REDACTION_PATTERNS name = Some pattern"
  shows "\<exists>ro. pattern_regex RegExp_gi name pattern (Some cp) = Inr ro \<and>
              (\<forall>rx. ro = Some rx \<longrightarrow> progresses rx)"
proof (cases "name = ''custom''")
  case True
  with invalid_custom_regex(1) [OF assms(1,2)] invalid_custom_regex(2) [OF assms(1,2), of pattern]
    find_literal_progresses [of cp]
  show ?thesis by simp
next
  case False
  then have "pattern_regex RegExp_gi name pattern (Some cp) = Inr (pat_regex pattern)"
    by (simp add: pattern_regex_def)
  with builtin_regex_progresses [OF assms(3)] show ?thesis by simp
qed

lemma invalid_custom_returns:
  assumes "compiles_literals RegExp_gi" and "RegExp_gi cp = None"
  shows "\<exists>rs. searchPatterns RegExp_gi util pdfDoc patternNames (Some cp) = Some (Inr rs)"
proof (cases pdfDoc)
  case None
  then show ?thesis by (simp add: searchPatterns_def)
next
  case (Some pages)
  from search_pages_returns [of RegExp_gi "Some cp" util patternNames pages 1 "[]"]
    invalid_custom_names [OF assms]
  show ?thesis unfolding searchPatterns_def Some by simp
qed

lemma find_literal_Some:
  "find_literal pat s i = Some (idx, m) \<Longrightarrow>
   i \<le> idx \<and> idx + length pat \<le> length s \<and> m = take (length pat) (drop idx s) \<and>
   map canonicalize m = map canonicalize pat \<and>
   (\<forall>k. i \<le> k \<and> k < idx \<longrightarrow>
        map canonicalize (take (length pat) (drop k s)) \<noteq> map canonicalize pat)"
proof (induction pat s i rule: find_literal.induct)
  case (1 pat s i)
  show ?case
  proof (cases "length s < i")
    case True
    with "1.prems" show ?thesis by (subst (asm) find_literal.simps) simp
  next
    case False
    show ?thesis
    proof (cases "map canonicalize (take (length pat) (drop i s)) = map canonicalize pat")
      case True
      then have "length (take (length pat) (drop i s)) = length pat"
        using length_map [of canonicalize] by metis
      then have le: "i + length pat \<le> length s" using False by simp
      from True False "1.prems" have "idx = i" "m = take (length pat) (drop i s)"
        by (subst (asm) find_literal.simps, simp)+
      with True le show ?thesis by auto
    next
      case ne: False
      with False "1.prems" have "find_literal pat s (i + 1) = Some (idx, m)"
        by (subst (asm) find_literal.simps) simp
      from "1.IH" [OF False ne this]
      have ih: "i + 1 \<le> idx" "idx + length pat \<le> length s" "m = take (length pat) (drop idx s)"
        "map canonicalize m = map canonicalize pat"
        "\<And>k. i + 1 \<le> k \<Longrightarrow> k < idx \<Longrightarrow>
           map canonicalize (take (length pat) (drop k s)) \<noteq> map canonicalize pat"
        by blast+
      have "map canonicalize (take (length pat) (drop k s)) \<noteq> map canonicalize pat"
        if "i \<le> k" "k < idx" for k
      proof (cases "k = i")
        case True
        with ne show ?thesis by simp
      next
        case False
        with that ih(5) [of k] show ?thesis by simp
      qed
      with ih show ?thesis by simp
    qed
  qed
qed

subsection \<open>Concrete runs\<close>

lemmas eval_regex =
  rx_exec.simps ends.simps(6) exactly_def opt_def star_def plus1_def digit_def sep_def chr1_def lit_def
  cset_mem_def word_boundary_def is_digit_def is_space_def is_word_char_def substring_def canonicalize_def
  char_of_def bit_0

lemmas eval_search =
  searchPatterns_def REDACTION_PATTERNS_def pattern_regex_def match_loop.simps

subsection \<open>The claims about the search\<close>

text \<open>
  C2 as stated fails: two glyph runs on the same line (both have the top 80), the SSN
  match \<open>078-05 1120\<close> covers characters of both, and it gets two rectangles, one for
  each run.
\<close>

theorem two_runs_same_line_counterexample:
  "item_top None (Num 1, Num 0, Num 0, Num (- 1), Num 0, Num 792)
     \<lparr>item_str = ''078-05'', item_transform = (Num 12, Num 0, Num 0, Num 12, Num 72, Num 700), item_width = Num 36\<rparr> = Num 80 \<and>
   item_top None (Num 1, Num 0, Num 0, Num (- 1), Num 0, Num 792)
     \<lparr>item_str = ''1120'', item_transform = (Num 12, Num 0, Num 0, Num 12, Num 114, Num 700), item_width = Num 24\<rparr> = Num 80 \<and>
   searchPatterns RegExp_literal None
     (Some [\<lparr>page_items =
        [\<lparr>item_str = ''078-05'', item_transform = (Num 12, Num 0, Num 0, Num 12, Num 72, Num 700), item_width = Num 36\<rparr>,
         \<lparr>item_str = ''1120'', item_transform = (Num 12, Num 0, Num 0, Num 12, Num 114, Num 700), item_width = Num 24\<rparr>],
        page_viewport = (Num 1, Num 0, Num 0, Num (- 1), Num 0, Num 792)\<rparr>])
     [''ssn''] None =
   Some (Inr [\<lparr>res_pageNum = 1, res_pattern = ''ssn'', res_text = ''078-05 1120'',
      res_rects = [\<lparr>rect_x = Num 72, rect_y = Num 80, rect_width = Num 36, rect_height = Num 12\<rparr>,
                   \<lparr>rect_x = Num 114, rect_y = Num 80, rect_width = Num 24, rect_height = Num 12\<rparr>]\<rparr>])"
  by (simp add: eval_search eval_charmap eval_regex eval_rects ssn_rexp_def item_top_def
      ssn_validate_def strip_separators_def parseInt_def radix_digit_def substring_from_def Let_def)

text \<open>
  C5. When \<open>new RegExp(customPattern, 'gi')\<close> throws, and the constructor compiles, as
  the language guarantees, every source made of plain characters and escaped syntax
  characters: \<open>searchPatterns\<close> returns (it neither throws nor loops), the expression it
  searches for the name \<open>custom\<close> is the literal search for the string supplied (compared
  in canonical form, since the flags are \<open>gi\<close>), and \<open>escapeRegex\<close> writes the string with a
  backslash before every syntax character and nothing else changed.
\<close>

theorem invalid_custom_pattern_is_literal_search:
  assumes "compiles_literals RegExp_gi" and "RegExp_gi cp = None"
  shows "(\<exists>rs. searchPatterns RegExp_gi util pdfDoc patternNames (Some cp) = Some (Inr rs)) \<and>
         pattern_regex RegExp_gi ''custom'' pattern (Some cp) = Inr (Some (find_literal cp)) \<and>
         escapeRegex cp = concat (map (\<lambda>c. if syntax_character c then [backslash, c] else [c]) cp)"
  using invalid_custom_returns [OF assms] invalid_custom_regex(2) [OF assms]
    escapeRegex_quotes [of cp]
  by (simp add: quote_pattern_def)

theorem invalid_custom_pattern_witness:
  "compiles_literals RegExp_literal \<and> RegExp_literal ''(ab'' = None \<and>
   escapeRegex ''(ab'' = backslash # ''(ab'' \<and>
   pattern_regex RegExp_literal ''custom'' \<lparr>pat_regex = None, pat_validate = \<lambda>m. True\<rparr> (Some ''(ab'') =
     Inr (Some (find_literal ''(ab'')) \<and>
   find_literal ''(ab'' ''see (AB) '' 0 = Some (4, ''(AB'') \<and>
   searchPatterns RegExp_literal None
     (Some [\<lparr>page_items =
        [\<lparr>item_str = ''see (AB)'', item_transform = (Num 12, Num 0, Num 0, Num 12, Num 72, Num 700), item_width = Num 48\<rparr>],
        page_viewport = (Num 1, Num 0, Num 0, Num (- 1), Num 0, Num 792)\<rparr>])
     [''custom''] (Some ''(ab'') =
   Some (Inr [\<lparr>res_pageNum = 1, res_pattern = ''custom'', res_text = ''(AB'',
      res_rects = [\<lparr>rect_x = Num 96, rect_y = Num 80, rect_width = Num 18, rect_height = Num 12\<rparr>]\<rparr>])"
proof -
  have n: "RegExp_literal ''(ab'' = None"
    by (simp add: RegExp_literal_def syntax_character_def backslash_def)
  note t = invalid_custom_pattern_is_literal_search [OF RegExp_literal_compiles n,
      of None None "[]" "\<lparr>pat_regex = None, pat_validate = \<lambda>m. True\<rparr>"]
  have e: "escapeRegex ''(ab'' = backslash # ''(ab''"
    using t by (simp add: syntax_character_def backslash_def)
  have f: "find_literal ''(ab'' ''see (AB) '' 0 = Some (4, ''(AB'')"
    by (simp add: find_literal.simps canonicalize_def char_of_def bit_0)
  have s: "searchPatterns RegExp_literal None
     (Some [\<lparr>page_items =
        [\<lparr>item_str = ''see (AB)'', item_transform = (Num 12, Num 0, Num 0, Num 12, Num 72, Num 700), item_width = Num 48\<rparr>],
        page_viewport = (Num 1, Num 0, Num 0, Num (- 1), Num 0, Num 792)\<rparr>])
     [''custom''] (Some ''(ab'') =
   Some (Inr [\<lparr>res_pageNum = 1, res_pattern = ''custom'', res_text = ''(AB'',
      res_rects = [\<lparr>rect_x = Num 96, rect_y = Num 80, rect_width = Num 18, rect_height = Num 12\<rparr>]\<rparr>])"
    by (simp add: eval_search eval_charmap eval_regex eval_rects RegExp_literal_def
        escapeRegex_def escaped_class_def syntax_character_def backslash_def Let_def)
  from RegExp_literal_compiles n e t f s show ?thesis by simp
qed

lemma match_loop_empty_text:
  assumes "progresses regex"
  shows "match_loop regex validate [] charMap pageNum patternName 0 results = Some results"
proof -
  have "regex [] 0 = None"
  proof (cases "regex [] 0")
    case (Some p)
    obtain idx m where "p = (idx, m)" by (cases p)
    with Some assms have "m \<noteq> []" "idx + length m \<le> length ([] :: string)"
      unfolding progresses_def by blast+
    then show ?thesis by simp
  qed simp
  then show ?thesis by (subst match_loop.simps) simp
qed

lemma search_names_empty_text:
  "search_names RegExp_gi None [] charMap pageNum names results = Some (Inr results)"
proof (induction names)
  case Nil
  then show ?case by simp
next
  case (Cons name names)
  show ?case
  proof (cases "REDACTION_PATTERNS name")
    case None
    with Cons show ?thesis by simp
  next
    case (Some pattern)
    have pr: "pattern_regex RegExp_gi name pattern None = Inr (pat_regex pattern)"
      by (simp add: pattern_regex_def)
    show ?thesis
    proof (cases "pat_regex pattern")
      case None
      with Some pr Cons show ?thesis by simp
    next
      case rx: (Some regex)
      from builtin_regex_progresses [OF Some rx]
      have "match_loop regex (pat_validate pattern) [] charMap pageNum name 0 results = Some results"
        by (rule match_loop_empty_text)
      with Some pr rx Cons show ?thesis by simp
    qed
  qed
qed

lemma empty_pages_no_matches:
  assumes "\<forall>pg \<in> set pages. page_items pg = []"
  shows "search_pages RegExp_gi util patternNames None pages pageNum results = Some (Inr results)"
  using assms
  by (induction pages arbitrary: pageNum) (simp_all add: buildCharMap_def search_names_empty_text)

text \<open>
  C9 holds for the built-in patterns: on a document whose pages have no text items, the
  search returns no match, whatever pattern names are asked for, when no custom pattern is
  given.
\<close>

lemma searchPatterns_empty_pages:
  assumes "\<forall>pg \<in> set pages. page_items pg = []"
  shows "searchPatterns RegExp_gi util (Some pages) patternNames None = Some (Inr [])"
  using empty_pages_no_matches [OF assms] by (simp add: searchPatterns_def)

text \<open>
  C9 fails for a custom pattern that matches the empty string: on a page with no text
  items, with the custom pattern \<open>a*\<close> (compiled to the expression \<open>/a*/gi\<close>), the
  \<open>while\<close> loop gets the empty match at index 0 again and again, since \<open>lastIndex\<close> stays
  0, and \<open>searchPatterns\<close> never returns.
\<close>

theorem empty_page_custom_star_never_returns:
  "searchPatterns (\<lambda>source. if source = ''a*'' then Some (rx_exec True (star (chr1 CHR ''a''))) else None)
     None (Some [\<lparr>page_items = [], page_viewport = (Num 1, Num 0, Num 0, Num (- 1), Num 0, Num 792)\<rparr>])
     [''custom''] (Some ''a*'') = None"
proof -
  have "rx_exec True (star (chr1 CHR ''a'')) [] 0 = Some (0, [])"
    by (simp add: eval_regex)
  from match_loop_empty_match
    [of "rx_exec True (star (chr1 CHR ''a''))" "[]" 0 "\<lambda>m. True" "[]" 1 "''custom''" "[]", OF this]
  show ?thesis
    by (simp add: searchPatterns_def buildCharMap_def REDACTION_PATTERNS_def pattern_regex_def)
qed

text \<open>
  C10. Every element of the list that \<open>searchPatterns\<close> returns has at least one
  rectangle. A match that passes its validator and whose span has only \<open>null\<close> entries in
  the character map has no rectangle, and the loop goes on with the results unchanged.
\<close>

theorem search_results_have_rects:
  "(searchPatterns RegExp_gi util pdfDoc patternNames customPattern = Some (Inr rs) \<longrightarrow>
      (\<forall>r \<in> set rs. res_rects r \<noteq> [])) \<and>
   (regex fullText i = Some (idx, m) \<and> validate m \<and>
    (\<forall>e \<in> set (char_span charMap idx (idx + length m)). e = None) \<longrightarrow>
      getRectsForRange charMap idx (idx + length m) = [] \<and>
      match_loop regex validate fullText charMap pageNum patternName i results =
      match_loop regex validate fullText charMap pageNum patternName (idx + length m) results)"
proof (intro conjI impI)
  assume "searchPatterns RegExp_gi util pdfDoc patternNames customPattern = Some (Inr rs)"
  then show "\<forall>r \<in> set rs. res_rects r \<noteq> []" by (rule searchPatterns_rects)
next
  assume a: "regex fullText i = Some (idx, m) \<and> validate m \<and>
    (\<forall>e \<in> set (char_span charMap idx (idx + length m)). e = None)"
  then show r: "getRectsForRange charMap idx (idx + length m) = []"
    by (intro getRectsForRange_nulls) simp
  from a r show "match_loop regex validate fullText charMap pageNum patternName i results =
      match_loop regex validate fullText charMap pageNum patternName (idx + length m) results"
    by (subst match_loop.simps) simp
qed

theorem search_results_have_rects_witness:
  "searchPatterns RegExp_literal None
     (Some [\<lparr>page_items =
        [\<lparr>item_str = ''a'', item_transform = (Num 12, Num 0, Num 0, Num 12, Num 72, Num 700), item_width = Num 6\<rparr>,
         \<lparr>item_str = ''b'', item_transform = (Num 12, Num 0, Num 0, Num 12, Num 84, Num 700), item_width = Num 6\<rparr>],
        page_viewport = (Num 1, Num 0, Num 0, Num (- 1), Num 0, Num 792)\<rparr>])
     [''custom''] (Some ''b'') =
   Some (Inr [\<lparr>res_pageNum = 1, res_pattern = ''custom'', res_text = ''b'',
      res_rects = [\<lparr>rect_x = Num 84, rect_y = Num 80, rect_width = Num 6, rect_height = Num 12\<rparr>]\<rparr>]) \<and>
   res_rects \<lparr>res_pageNum = 1, res_pattern = ''custom'', res_text = ''b'',
      res_rects = [\<lparr>rect_x = Num 84, rect_y = Num 80, rect_width = Num 6, rect_height = Num 12\<rparr>]\<rparr> \<noteq> [] \<and>
   searchPatterns RegExp_literal None
     (Some [\<lparr>page_items =
        [\<lparr>item_str = ''a'', item_transform = (Num 12, Num 0, Num 0, Num 12, Num 72, Num 700), item_width = Num 6\<rparr>,
         \<lparr>item_str = ''b'', item_transform = (Num 12, Num 0, Num 0, Num 12, Num 84, Num 700), item_width = Num 6\<rparr>],
        page_viewport = (Num 1, Num 0, Num 0, Num (- 1), Num 0, Num 792)\<rparr>])
     [''custom''] (Some '' '') = Some (Inr [])"
proof -
  let ?doc = "Some [\<lparr>page_items =
        [\<lparr>item_str = ''a'', item_transform = (Num 12, Num 0, Num 0, Num 12, Num 72, Num 700), item_width = Num 6\<rparr>,
         \<lparr>item_str = ''b'', item_transform = (Num 12, Num 0, Num 0, Num 12, Num 84, Num 700), item_width = Num 6\<rparr>],
        page_viewport = (Num 1, Num 0, Num 0, Num (- 1), Num 0, Num 792)\<rparr>]"
  let ?r = "\<lparr>res_pageNum = 1, res_pattern = ''custom'', res_text = ''b'',
      res_rects = [\<lparr>rect_x = Num 84, rect_y = Num 80, rect_width = Num 6, rect_height = Num 12\<rparr>]\<rparr>"
  have b: "searchPatterns RegExp_literal None ?doc [''custom''] (Some ''b'') = Some (Inr [?r])"
    by (simp add: eval_search eval_charmap eval_regex eval_rects RegExp_literal_def
        syntax_character_def backslash_def Let_def)
  have sp: "searchPatterns RegExp_literal None ?doc [''custom''] (Some '' '') = Some (Inr [])"
    by (simp add: eval_search eval_charmap eval_regex eval_rects RegExp_literal_def
        syntax_character_def backslash_def Let_def)
  from search_results_have_rects [of RegExp_literal None ?doc "[''custom'']" "Some ''b''" "[?r]"] b
  have "res_rects ?r \<noteq> []" by simp
  with b sp show ?thesis by simp
qed

subsection \<open>The OCR conversion\<close>

lemma exact_width:
  "stored_width (\<lambda>x. x) (stored_word (\<lambda>x. x) w) =
   (bbox_x1 (word_bbox w) - bbox_x0 (word_bbox w)) / (300 / 72)"
  by (simp add: stored_width_def stored_word_def pdfBbox_def SCALE_FACTOR_def OCR_DPI_def PDF_DPI_def
      diff_divide_distrib)

lemma rounding_error:
  assumes "rounds_to_double rnd" and "\<bar>x\<bar> \<le> 2 ^ 40"
  shows "\<bar>rnd x - x\<bar> \<le> \<bar>x\<bar> / 2 ^ 53 + 1 / 2 ^ 100"
proof -
  have "(2 :: real) ^ 40 \<le> 2 ^ 1023" by (intro power_increasing) simp_all
  with assms(2) have "\<bar>x\<bar> \<le> 2 ^ 1023" by (rule order_trans)
  with assms(1) have "\<bar>rnd x - x\<bar> \<le> \<bar>x\<bar> / 2 ^ 53 + 1 / 2 ^ 1075"
    unfolding rounds_to_double_def by blast
  moreover have "(1 :: real) / 2 ^ 1075 \<le> 1 / 2 ^ 100"
    by (intro divide_left_mono power_increasing mult_pos_pos zero_less_power) simp_all
  ultimately show ?thesis by (rule order_trans [OF _ add_left_mono])
qed

lemma scale_factor_bounds:
  assumes "rounds_to_double rnd"
  shows "4 \<le> SCALE_FACTOR rnd"
    and "\<bar>(25 / 6 - SCALE_FACTOR rnd) / (25 / 6)\<bar> \<le> 1 / 2 ^ 53 + 1 / 2 ^ 100"
proof -
  have "\<bar>rnd (25 / 6) - 25 / 6\<bar> \<le> \<bar>25 / 6 :: real\<bar> / 2 ^ 53 + 1 / 2 ^ 100"
    by (rule rounding_error [OF assms]) simp
  then have b: "\<bar>SCALE_FACTOR rnd - 25 / 6\<bar> \<le> (25 / 6) / 2 ^ 53 + 1 / 2 ^ 100"
    by (simp add: SCALE_FACTOR_def OCR_DPI_def PDF_DPI_def)
  then show "4 \<le> SCALE_FACTOR rnd" by (auto simp: abs_if split: if_splits)
  from b show "\<bar>(25 / 6 - SCALE_FACTOR rnd) / (25 / 6)\<bar> \<le> 1 / 2 ^ 53 + 1 / 2 ^ 100"
    by (auto simp: abs_if field_simps split: if_splits)
qed

lemma coord_error:
  assumes r: "rounds_to_double rnd" and c: "\<bar>c\<bar> \<le> 10 ^ 9"
  shows "\<bar>rnd (c / SCALE_FACTOR rnd) - c / (25 / 6)\<bar> \<le> 10 ^ 9 / 2 ^ 54 + 1 / 2 ^ 60"
    and "\<bar>rnd (c / SCALE_FACTOR rnd)\<bar> \<le> 10 ^ 9 / 2"
proof -
  let ?S = "SCALE_FACTOR rnd"
  note S = scale_factor_bounds [OF r]
  have Spos: "0 < ?S" using S(1) by simp
  have q: "\<bar>c / ?S\<bar> \<le> 10 ^ 9 / 4"
  proof -
    have "\<bar>c / ?S\<bar> = \<bar>c\<bar> / ?S" using Spos by simp
    also have "\<dots> \<le> 10 ^ 9 / ?S" using c Spos by (intro divide_right_mono) simp_all
    also have "\<dots> \<le> 10 ^ 9 / 4" using S(1) by (intro frac_le) simp_all
    finally show ?thesis .
  qed
  have e1: "\<bar>rnd (c / ?S) - c / ?S\<bar> \<le> (10 ^ 9 / 4) / 2 ^ 53 + 1 / 2 ^ 100"
  proof -
    have "\<bar>rnd (c / ?S) - c / ?S\<bar> \<le> \<bar>c / ?S\<bar> / 2 ^ 53 + 1 / 2 ^ 100"
      using q by (intro rounding_error [OF r]) simp
    moreover have "\<bar>c / ?S\<bar> / 2 ^ 53 \<le> (10 ^ 9 / 4) / 2 ^ 53"
      using q by (intro divide_right_mono) simp_all
    ultimately show ?thesis by linarith
  qed
  have e2: "\<bar>c / ?S - c / (25 / 6)\<bar> \<le> (10 ^ 9 / 4) * (1 / 2 ^ 53 + 1 / 2 ^ 100)"
  proof -
    have "c / ?S - c / (25 / 6) = (c / ?S) * ((25 / 6 - ?S) / (25 / 6))"
      using Spos by (simp add: field_simps)
    then have "\<bar>c / ?S - c / (25 / 6)\<bar> = \<bar>c / ?S\<bar> * \<bar>(25 / 6 - ?S) / (25 / 6)\<bar>"
      by (simp only: abs_mult)
    also have "\<dots> \<le> (10 ^ 9 / 4) * (1 / 2 ^ 53 + 1 / 2 ^ 100)"
      using q S(2) by (intro mult_mono) simp_all
    finally show ?thesis .
  qed
  have n: "(10 ^ 9 / 4) / 2 ^ 53 + 1 / 2 ^ 100 + (10 ^ 9 / 4) * (1 / 2 ^ 53 + 1 / 2 ^ 100) \<le>
      (10 ^ 9 / 2 ^ 54 + 1 / 2 ^ 60 :: real)"
    by simp
  from e1 e2 n show g1: "\<bar>rnd (c / ?S) - c / (25 / 6)\<bar> \<le> 10 ^ 9 / 2 ^ 54 + 1 / 2 ^ 60"
    by linarith
  have "\<bar>c / (25 / 6)\<bar> \<le> 10 ^ 9 * (6 / 25)" using c by simp
  moreover have "10 ^ 9 * (6 / 25) + (10 ^ 9 / 2 ^ 54 + 1 / 2 ^ 60) \<le> (10 ^ 9 / 2 :: real)" by simp
  ultimately show "\<bar>rnd (c / ?S)\<bar> \<le> 10 ^ 9 / 2" using g1 by linarith
qed

lemma triangle3:
  fixes W A1 A0 Y1 Y0 e d t :: real
  assumes "\<bar>W - (A1 - A0)\<bar> \<le> e" and "\<bar>A0 - Y0\<bar> \<le> d" and "\<bar>A1 - Y1\<bar> \<le> d"
    and "e + 2 * d \<le> t"
  shows "\<bar>W - (Y1 - Y0)\<bar> \<le> t"
  using assms by linarith

lemma width_error:
  assumes r: "rounds_to_double rnd"
    and x0: "\<bar>bbox_x0 (word_bbox w)\<bar> \<le> 10 ^ 9" and x1: "\<bar>bbox_x1 (word_bbox w)\<bar> \<le> 10 ^ 9"
  shows "\<bar>stored_width rnd (stored_word rnd w) -
          (bbox_x1 (word_bbox w) - bbox_x0 (word_bbox w)) / (300 / 72)\<bar> \<le> 1 / 10 ^ 6"
proof -
  let ?a0 = "rnd (bbox_x0 (word_bbox w) / SCALE_FACTOR rnd)"
  let ?a1 = "rnd (bbox_x1 (word_bbox w) / SCALE_FACTOR rnd)"
  let ?x0 = "bbox_x0 (word_bbox w)" and ?x1 = "bbox_x1 (word_bbox w)"
  note c0 = coord_error [OF r x0] and c1 = coord_error [OF r x1]
  have w: "stored_width rnd (stored_word rnd w) = rnd (?a1 - ?a0)"
    by (simp add: stored_width_def stored_word_def pdfBbox_def)
  have d: "\<bar>?a1 - ?a0\<bar> \<le> 10 ^ 9" using c0(2) c1(2) by linarith
  have "\<bar>rnd (?a1 - ?a0) - (?a1 - ?a0)\<bar> \<le> \<bar>?a1 - ?a0\<bar> / 2 ^ 53 + 1 / 2 ^ 100"
    using d by (intro rounding_error [OF r]) simp
  moreover have "\<bar>?a1 - ?a0\<bar> / 2 ^ 53 \<le> 10 ^ 9 / 2 ^ 53"
    using d by (intro divide_right_mono) simp_all
  ultimately have e: "\<bar>rnd (?a1 - ?a0) - (?a1 - ?a0)\<bar> \<le> 10 ^ 9 / 2 ^ 53 + 1 / 2 ^ 100"
    by linarith
  have E: "(?x1 - ?x0) / (300 / 72) = ?x1 / (25 / 6) - ?x0 / (25 / 6)"
    by (simp add: diff_divide_distrib)
  have n: "10 ^ 9 / 2 ^ 53 + 1 / 2 ^ 100 + 2 * (10 ^ 9 / 2 ^ 54 + 1 / 2 ^ 60) \<le> (1 / 10 ^ 6 :: real)"
    by simp
  from e c0(1) c1(1) n
  have "\<bar>rnd (?a1 - ?a0) - (?x1 / (25 / 6) - ?x0 / (25 / 6))\<bar> \<le> 1 / 10 ^ 6"
    by (rule triangle3)
  then show ?thesis
    unfolding w E .
qed

text \<open>
  C7. The stored rectangle of an OCR word is its pixel box with every coordinate divided
  by the scale factor \<open>300 / 72\<close>. In exact arithmetic the stored width is
  \<open>(x1 - x0) / (300 / 72)\<close> for every box. In double arithmetic, where every operation
  is rounded (the quotient \<open>300 / 72\<close>, the two divisions and the subtraction), the stored
  width differs from \<open>(x1 - x0) / (300 / 72)\<close> by at most \<open>1e-6\<close> for every box whose
  coordinates are at most \<open>10 ^ 9\<close> pixels in absolute value, which covers any page raster.
\<close>

theorem ocr_width_within_tolerance:
  assumes "rounds_to_double rnd"
    and "\<bar>bbox_x0 (word_bbox w)\<bar> \<le> 10 ^ 9" and "\<bar>bbox_x1 (word_bbox w)\<bar> \<le> 10 ^ 9"
  shows "word_bbox (stored_word rnd w) =
           \<lparr>bbox_x0 = rnd (bbox_x0 (word_bbox w) / rnd (300 / 72)),
            bbox_y0 = rnd (bbox_y0 (word_bbox w) / rnd (300 / 72)),
            bbox_x1 = rnd (bbox_x1 (word_bbox w) / rnd (300 / 72)),
            bbox_y1 = rnd (bbox_y1 (word_bbox w) / rnd (300 / 72))\<rparr> \<and>
         \<bar>stored_width rnd (stored_word rnd w) -
            (bbox_x1 (word_bbox w) - bbox_x0 (word_bbox w)) / (300 / 72)\<bar> \<le> 1 / 10 ^ 6 \<and>
         stored_width (\<lambda>x. x) (stored_word (\<lambda>x. x) w) =
            (bbox_x1 (word_bbox w) - bbox_x0 (word_bbox w)) / (300 / 72)"
proof -
  have a: "word_bbox (stored_word rnd w) =
           \<lparr>bbox_x0 = rnd (bbox_x0 (word_bbox w) / rnd (300 / 72)),
            bbox_y0 = rnd (bbox_y0 (word_bbox w) / rnd (300 / 72)),
            bbox_x1 = rnd (bbox_x1 (word_bbox w) / rnd (300 / 72)),
            bbox_y1 = rnd (bbox_y1 (word_bbox w) / rnd (300 / 72))\<rparr>"
    by (simp add: stored_word_def pdfBbox_def SCALE_FACTOR_def OCR_DPI_def PDF_DPI_def)
  from a width_error [OF assms] exact_width [of w] show ?thesis by (intro conjI)
qed

theorem ocr_width_witness:
  "rounds_to_double (\<lambda>x. x) \<and>
   word_bbox (stored_word (\<lambda>x. x)
     \<lparr>word_text = ''Total'', word_bbox = \<lparr>bbox_x0 = 300, bbox_y0 = 150, bbox_x1 = 600, bbox_y1 = 210\<rparr>,
      word_confidence = 96\<rparr>) =
     \<lparr>bbox_x0 = 72, bbox_y0 = 36, bbox_x1 = 144, bbox_y1 = 252 / 5\<rparr> \<and>
   stored_width (\<lambda>x. x) (stored_word (\<lambda>x. x)
     \<lparr>word_text = ''Total'', word_bbox = \<lparr>bbox_x0 = 300, bbox_y0 = 150, bbox_x1 = 600, bbox_y1 = 210\<rparr>,
      word_confidence = 96\<rparr>) = 72"
proof -
  have r: "rounds_to_double (\<lambda>x. x)" by (simp add: rounds_to_double_def)
  from ocr_width_within_tolerance [OF r,
      of "\<lparr>word_text = ''Total'', word_bbox = \<lparr>bbox_x0 = 300, bbox_y0 = 150, bbox_x1 = 600, bbox_y1 = 210\<rparr>,
           word_confidence = 96\<rparr>"]
  show ?thesis using r
    by (simp add: stored_word_def pdfBbox_def SCALE_FACTOR_def OCR_DPI_def PDF_DPI_def)
qed

text \<open>
  Rounding to nearest has the error that the conversion assumes, so the bound holds in
  the arithmetic of the language.
\<close>

lemma rhe_error: "\<bar>of_int (round_half_even r) - r\<bar> \<le> 1 / 2"
proof -
  define f where "f = \<lfloor>r\<rfloor>"
  have "of_int f \<le> r" "r < of_int f + 1" unfolding f_def by linarith+
  then show ?thesis
    unfolding round_half_even_def Let_def f_def [symmetric] by (auto simp: abs_if)
qed

lemma ulp_bound:
  assumes "x \<noteq> 0"
  shows "ulp x \<le> MIN_VALUE \<or> 2 ^ 52 * ulp x \<le> \<bar>x\<bar>"
proof (cases "\<lfloor>log 2 \<bar>x\<bar>\<rfloor> \<le> - 1022")
  case True
  then have "binade x = - 1022" by (simp add: binade_def)
  then have "ulp x = 2 powr (- real 1074)" by (simp add: ulp_def)
  then show ?thesis by (simp only: MIN_VALUE_powr) simp
next
  case False
  then have "binade x = \<lfloor>log 2 \<bar>x\<bar>\<rfloor>" by (simp add: binade_def)
  moreover have "0 < \<bar>x\<bar>" using assms by simp
  ultimately show ?thesis using ulp_floor [of "\<bar>x\<bar>"] by (simp add: ulp_def)
qed

lemma to_double_rounds: "rounds_to_double double_value"
  unfolding rounds_to_double_def
proof (intro allI impI)
  fix x :: real
  assume x: "\<bar>x\<bar> \<le> 2 ^ 1023"
  show "\<bar>double_value x - x\<bar> \<le> \<bar>x\<bar> / 2 ^ 53 + 1 / 2 ^ 1075"
  proof (cases "x = 0")
    case True
    then show ?thesis by (simp add: double_value_def to_double_0)
  next
    case False
    let ?u = "ulp x"
    let ?y = "of_int (round_half_even (x / ?u)) * ?u"
    have "?y - x = (of_int (round_half_even (x / ?u)) - x / ?u) * ?u"
      using ulp_pos [of x] by (simp add: field_simps)
    then have "\<bar>?y - x\<bar> = \<bar>of_int (round_half_even (x / ?u)) - x / ?u\<bar> * ?u"
      using ulp_pos [of x] by (simp add: abs_mult)
    also have "\<dots> \<le> 1 / 2 * ?u"
      using rhe_error [of "x / ?u"] ulp_pos [of x] by (intro mult_right_mono) simp_all
    finally have e: "\<bar>?y - x\<bar> \<le> ?u / 2" by simp
    have h: "MIN_VALUE / 2 = 1 / 2 ^ 1075" by (simp add: MIN_VALUE_def)
    have u: "?u / 2 \<le> \<bar>x\<bar> / 2 ^ 53 + 1 / 2 ^ 1075"
    proof (rule disjE [OF ulp_bound [OF False]])
      assume "?u \<le> MIN_VALUE"
      then have "?u / 2 \<le> MIN_VALUE / 2" by simp
      moreover have "0 \<le> \<bar>x\<bar> / 2 ^ 53" by simp
      ultimately show ?thesis using h by linarith
    next
      assume "2 ^ 52 * ?u \<le> \<bar>x\<bar>"
      then have "2 ^ 52 * ?u / 2 ^ 53 \<le> \<bar>x\<bar> / 2 ^ 53" by (intro divide_right_mono) simp_all
      then have "?u / 2 \<le> \<bar>x\<bar> / 2 ^ 53" by simp
      moreover have "(0 :: real) \<le> 1 / 2 ^ 1075" by simp
      ultimately show ?thesis by linarith
    qed
    with e have b: "\<bar>?y - x\<bar> \<le> \<bar>x\<bar> / 2 ^ 53 + 1 / 2 ^ 1075" by linarith
    have "\<bar>x\<bar> / 2 ^ 53 + 1 / 2 ^ 1075 \<le> 2 ^ 1023 / 2 ^ 53 + (1 :: real)"
      using x by (intro add_mono divide_right_mono) simp_all
    with b x have "\<bar>?y\<bar> \<le> 2 ^ 1023 + (2 ^ 1023 / 2 ^ 53 + (1 :: real))" by linarith
    also have "\<dots> < OVERFLOW" by (simp add: OVERFLOW_def)
    finally have "\<bar>?y\<bar> < OVERFLOW" .
    then have "to_double x = Num ?y"
      by (auto simp: to_double_def Let_def abs_if split: if_splits)
    then show ?thesis using b by (simp add: double_value_def)
  qed
qed

lemma ocr_width_double:
  assumes "\<bar>bbox_x0 (word_bbox w)\<bar> \<le> 10 ^ 9" and "\<bar>bbox_x1 (word_bbox w)\<bar> \<le> 10 ^ 9"
  shows "\<bar>stored_width double_value (stored_word double_value w) -
          (bbox_x1 (word_bbox w) - bbox_x0 (word_bbox w)) / (300 / 72)\<bar> \<le> 1 / 10 ^ 6"
  using to_double_rounds assms by (rule width_error)

end
